theory Spec2Isabelle
  imports Main "HOL-Library.FSet" "HOL-Library.Finite_Map" "HOL-Library.Sublist"
begin

section \<open>The crawl frontier: \<^verbatim>\<open>src/scraper/url_manager.py\<close>\<close>

text \<open>
  \<^verbatim>\<open>URLManager\<close> keeps four Redis keys: three sets (\<^verbatim>\<open>scraper:crawl_queue\<close>,
  \<^verbatim>\<open>scraper:visited_urls\<close>, \<^verbatim>\<open>scraper:image_retry_queue\<close>) and one hash
  (\<^verbatim>\<open>scraper:failed_urls\<close>). A Redis set is a finite set, the hash a finite map.
  The image retry queue holds the JSON dump of an \<^verbatim>\<open>ImageData\<close>; the dump is
  injective on the three fields, so the model stores the record itself.
\<close>

datatype ImageData = ImageData string string string
  \<comment> \<open>the fields \<^verbatim>\<open>image_url\<close>, \<^verbatim>\<open>npc_name\<close>, \<^verbatim>\<open>page_url\<close>, in this order\<close>

record URLManager =
  crawl_queue :: "string fset"
  visited_urls :: "string fset"
  failed_urls :: "(string, string) fmap"
  image_retry_queue :: "ImageData fset"

text \<open>
  The Redis commands the class uses. \<^verbatim>\<open>SADD key v1 .. vn\<close> answers the number of
  members that were new; \<^verbatim>\<open>SPOP key\<close> removes and answers a member of Redis' choosing
  (or nil on an empty set), so it is a relation between the set, the answer and the
  set that is left.
\<close>

definition sadd :: "'a fset \<Rightarrow> 'a list \<Rightarrow> nat \<times> 'a fset" where
  "sadd S vs = (fcard (fset_of_list vs |-| S), S |\<union>| fset_of_list vs)"

definition sismember :: "'a fset \<Rightarrow> 'a \<Rightarrow> bool" where
  "sismember S v \<longleftrightarrow> v |\<in>| S"

inductive spop :: "'a fset \<Rightarrow> 'a option \<Rightarrow> 'a fset \<Rightarrow> bool" where
  spop_nil: "S = {||} \<Longrightarrow> spop S None S"
| spop_member: "v |\<in>| S \<Longrightarrow> spop S (Some v) (S |-| {|v|})"

definition is_visited :: "URLManager \<Rightarrow> string \<Rightarrow> bool" where
  "is_visited m url = sismember (visited_urls m) url"

text \<open>
  \<^verbatim>\<open>add_to_queue\<close>: a visited URL is refused before Redis is touched; otherwise the
  answer is \<^verbatim>\<open>bool(added)\<close> of the \<^verbatim>\<open>SADD\<close>.
\<close>

definition add_to_queue :: "URLManager \<Rightarrow> string \<Rightarrow> bool \<times> URLManager" where
  "add_to_queue m url =
     (if is_visited m url then (False, m)
      else let (added, q) = sadd (crawl_queue m) [url]
           in (added \<noteq> 0, m\<lparr>crawl_queue := q\<rparr>))"

definition add_multiple_to_queue :: "URLManager \<Rightarrow> string list \<Rightarrow> nat \<times> URLManager" where
  "add_multiple_to_queue m urls =
     (if urls = [] then (0, m)
      else let new_urls = filter (\<lambda>url. \<not> is_visited m url) urls
           in if new_urls \<noteq> []
              then let (added, q) = sadd (crawl_queue m) new_urls
                   in (added, m\<lparr>crawl_queue := q\<rparr>)
              else (0, m))"

text \<open>
  \<^verbatim>\<open>get_next_url\<close> answers what \<^verbatim>\<open>SPOP\<close> answered (decoding bytes to text does not
  change the model's string).
\<close>

inductive get_next_url :: "URLManager \<Rightarrow> string option \<Rightarrow> URLManager \<Rightarrow> bool" where
  get_next_url_spop:
    "spop (crawl_queue m) r q \<Longrightarrow> get_next_url m r (m\<lparr>crawl_queue := q\<rparr>)"

definition mark_visited :: "URLManager \<Rightarrow> string \<Rightarrow> URLManager" where
  "mark_visited m url = m\<lparr>visited_urls := snd (sadd (visited_urls m) [url])\<rparr>"

definition mark_failed :: "URLManager \<Rightarrow> string \<Rightarrow> string \<Rightarrow> URLManager" where
  "mark_failed m url err = m\<lparr>failed_urls := fmupd url err (failed_urls m)\<rparr>"

definition add_to_image_queue ::
  "URLManager \<Rightarrow> string \<Rightarrow> string \<Rightarrow> string \<Rightarrow> bool \<times> URLManager" where
  "add_to_image_queue m iurl name purl =
     (let image_data = ImageData iurl name purl;
          (added, q) = sadd (image_retry_queue m) [image_data]
      in (added \<noteq> 0, m\<lparr>image_retry_queue := q\<rparr>))"

inductive get_next_image_data ::
  "URLManager \<Rightarrow> ImageData option \<Rightarrow> URLManager \<Rightarrow> bool" where
  get_next_image_data_spop:
    "spop (image_retry_queue m) r q \<Longrightarrow> get_next_image_data m r (m\<lparr>image_retry_queue := q\<rparr>)"

definition clear_all :: "URLManager \<Rightarrow> URLManager" where
  "clear_all m = m\<lparr>crawl_queue := {||}, visited_urls := {||},
                   failed_urls := fmempty, image_retry_queue := {||}\<rparr>"

text \<open>
  A client of the frontier calls its methods in some order. A call and its answer are
  one event; \<open>um_step\<close> relates the state before an event to the state after it, and
  \<open>um_run\<close> does so for a list of events.
\<close>

datatype um_event =
    AddToQueue string bool
  | AddMultipleToQueue "string list" nat
  | GetNextUrl "string option"
  | MarkVisited string
  | MarkFailed string string
  | AddToImageQueue string string string bool
  | GetNextImageData "ImageData option"
  | ClearAll

inductive um_step :: "URLManager \<Rightarrow> um_event \<Rightarrow> URLManager \<Rightarrow> bool" where
  step_add: "add_to_queue m url = (b, m') \<Longrightarrow> um_step m (AddToQueue url b) m'"
| step_add_multiple:
    "add_multiple_to_queue m urls = (n, m') \<Longrightarrow> um_step m (AddMultipleToQueue urls n) m'"
| step_next: "get_next_url m r m' \<Longrightarrow> um_step m (GetNextUrl r) m'"
| step_visited: "um_step m (MarkVisited url) (mark_visited m url)"
| step_failed: "um_step m (MarkFailed url err) (mark_failed m url err)"
| step_add_image:
    "add_to_image_queue m iurl name purl = (b, m') \<Longrightarrow>
     um_step m (AddToImageQueue iurl name purl b) m'"
| step_next_image: "get_next_image_data m r m' \<Longrightarrow> um_step m (GetNextImageData r) m'"
| step_clear: "um_step m ClearAll (clear_all m)"

inductive um_run :: "URLManager \<Rightarrow> um_event list \<Rightarrow> URLManager \<Rightarrow> bool" where
  run_nil: "um_run m [] m"
| run_cons: "um_step m e m' \<Longrightarrow> um_run m' es m'' \<Longrightarrow> um_run m (e # es) m''"

section \<open>The fetch client: \<^verbatim>\<open>src/scraper/fetcher.py\<close>\<close>

text \<open>
  Exceptions are values. \<open>str_exn\<close> is Python's \<^verbatim>\<open>str(e)\<close>, the message the
  exception was raised with.
\<close>

datatype exn =
    FetchError string
  | UnboundLocalError string
  | ValueError string
  | IOError string
  | FileNotFoundError string
  | Exception string

fun str_exn :: "exn \<Rightarrow> string" where
  "str_exn (FetchError msg) = msg"
| "str_exn (UnboundLocalError msg) = msg"
| "str_exn (ValueError msg) = msg"
| "str_exn (IOError msg) = msg"
| "str_exn (FileNotFoundError msg) = msg"
| "str_exn (Exception msg) = msg"

text \<open>
  What \<^verbatim>\<open>httpx.AsyncClient.get\<close> can do: answer a response (of any status), or raise.
  The \<^verbatim>\<open>except\<close> clauses of the callers tell three kinds of exception apart:
  \<^verbatim>\<open>httpx.TimeoutException\<close>, any other \<^verbatim>\<open>httpx.RequestError\<close>, and an exception that
  is no \<^verbatim>\<open>httpx.HTTPError\<close> at all. \<^verbatim>\<open>raise_for_status\<close> raises \<^verbatim>\<open>HTTPStatusError\<close>
  for a status outside 200..299. The body of a response is one string, \<open>text_body\<close>, read
  as \<^verbatim>\<open>response.text\<close> for a page and as \<^verbatim>\<open>response.content\<close> for an image.
\<close>

datatype httpx_error =
    TimeoutException string
  | RequestError string
  | NonHTTPError string

record Response =
  status_code :: nat
  text_body :: string

definition is_success :: "Response \<Rightarrow> bool" where
  "is_success r \<longleftrightarrow> 200 \<le> status_code r \<and> status_code r \<le> 299"

record URLFetcher =
  timeout :: int
  retries :: int
  rate_limit :: int

text \<open>
  \<^verbatim>\<open>random.randint(a, b)\<close> answers an integer \<open>N\<close> with \<open>a \<le> N \<le> b\<close> and raises
  \<^verbatim>\<open>ValueError\<close> on an empty range. Which one it answers is the generator's business:
  the model takes the generator's raw draw \<open>k\<close> as an argument.
\<close>

definition randint :: "int \<Rightarrow> int \<Rightarrow> nat \<Rightarrow> exn + int" where
  "randint a b k =
     (if a \<le> b then Inr (a + int (k mod nat (b - a + 1)))
      else Inl (ValueError ''empty range in randrange''))"

text \<open>Python's \<^verbatim>\<open>str\<close> of a non-negative integer, as the f-strings need it.\<close>

fun str_nat :: "nat \<Rightarrow> string" where
  "str_nat n =
     (if n < 10 then [''0123456789'' ! n]
      else str_nat (n div 10) @ [''0123456789'' ! (n mod 10)])"

declare str_nat.simps [simp del]

text \<open>
  What \<^verbatim>\<open>fetch_page\<close> does to the outside world, in order: it sleeps, and it sends
  the \<open>attempt\<close>-th GET.
\<close>

datatype fetch_event = Sleep int | Get int

text \<open>
  The \<^verbatim>\<open>for attempt in range(1, self.retries + 1)\<close> loop, by recursion on the range.
  \<open>client_get url attempt\<close> is what the network does to that GET, \<open>draw attempt\<close>
  the generator's draw before it. \<open>response\<close> is the local variable of that name: it
  is bound by a GET that answered, also when \<^verbatim>\<open>raise_for_status\<close> then raised. The
  \<^verbatim>\<open>return response\<close> behind the loop raises \<^verbatim>\<open>UnboundLocalError\<close> when it is unbound.
  The sleep and the GET are both inside the \<^verbatim>\<open>try\<close>, whose last clause turns any
  other exception into a \<^verbatim>\<open>FetchError\<close> at once.
\<close>

fun fetch_loop ::
  "URLFetcher \<Rightarrow> (string \<Rightarrow> int \<Rightarrow> httpx_error + Response) \<Rightarrow> (int \<Rightarrow> nat) \<Rightarrow> string \<Rightarrow>
   int list \<Rightarrow> Response option \<Rightarrow> fetch_event list \<Rightarrow> (exn + Response) \<times> fetch_event list"
where
  "fetch_loop f client_get draw url [] response tr =
     (case response of
        None \<Rightarrow> (Inl (UnboundLocalError
          ''cannot access local variable 'response' where it is not associated with a value''), tr)
      | Some r \<Rightarrow> (Inr r, tr))"
| "fetch_loop f client_get draw url (attempt # rest) response tr =
     (case randint (rate_limit f - 1) (rate_limit f + 3) (draw attempt) of
        Inl e \<Rightarrow> (Inl (FetchError (''Unexpected error: '' @ str_exn e)), tr)
      | Inr delay \<Rightarrow>
         (case client_get url attempt of
            Inr r \<Rightarrow>
              if is_success r then (Inr r, tr @ [Sleep delay, Get attempt])
              else if attempt = retries f
                then (Inl (FetchError (''HTTP error: '' @ str_nat (status_code r))),
                      tr @ [Sleep delay, Get attempt])
                else fetch_loop f client_get draw url rest (Some r)
                       (tr @ [Sleep delay, Get attempt])
          | Inl (TimeoutException e) \<Rightarrow>
              if attempt = retries f
                then (Inl (FetchError ''Request timed out''), tr @ [Sleep delay, Get attempt])
                else fetch_loop f client_get draw url rest response
                       (tr @ [Sleep delay, Get attempt])
          | Inl (RequestError e) \<Rightarrow>
              if attempt = retries f
                then (Inl (FetchError (''Request error: '' @ e)),
                      tr @ [Sleep delay, Get attempt])
                else fetch_loop f client_get draw url rest response
                       (tr @ [Sleep delay, Get attempt])
          | Inl (NonHTTPError e) \<Rightarrow>
              (Inl (FetchError (''Unexpected error: '' @ e)),
               tr @ [Sleep delay, Get attempt])))"

definition fetch_page ::
  "URLFetcher \<Rightarrow> (string \<Rightarrow> int \<Rightarrow> httpx_error + Response) \<Rightarrow> (int \<Rightarrow> nat) \<Rightarrow> string \<Rightarrow>
   (exn + Response) \<times> fetch_event list" where
  "fetch_page f client_get draw url =
     fetch_loop f client_get draw url [1..retries f] None []"

text \<open>
  Vocabulary for the claims about \<^verbatim>\<open>fetch_page\<close>. A GET fails in a way the loop
  retries when it times out, has a transport error, or answers a status outside 2xx;
  \<open>failure_cause\<close> is the text the loop puts into the \<^verbatim>\<open>FetchError\<close> for it.
  \<open>gets\<close> are the attempts a trace sent. \<open>sleeps_before_gets lo hi\<close> says that a
  trace is a sequence of pairs, a sleep of a delay within \<open>[lo, hi]\<close> and then a GET.
\<close>

fun retried :: "httpx_error + Response \<Rightarrow> bool" where
  "retried (Inr r) = (\<not> is_success r)"
| "retried (Inl (TimeoutException e)) = True"
| "retried (Inl (RequestError e)) = True"
| "retried (Inl (NonHTTPError e)) = False"

fun failure_cause :: "httpx_error + Response \<Rightarrow> string" where
  "failure_cause (Inr r) = ''HTTP error: '' @ str_nat (status_code r)"
| "failure_cause (Inl (TimeoutException e)) = ''Request timed out''"
| "failure_cause (Inl (RequestError e)) = ''Request error: '' @ e"
| "failure_cause (Inl (NonHTTPError e)) = ''Unexpected error: '' @ e"

fun gets :: "fetch_event list \<Rightarrow> int list" where
  "gets [] = []"
| "gets (Get k # tr) = k # gets tr"
| "gets (Sleep d # tr) = gets tr"

fun sleeps_before_gets :: "int \<Rightarrow> int \<Rightarrow> fetch_event list \<Rightarrow> bool" where
  "sleeps_before_gets lo hi [] = True"
| "sleeps_before_gets lo hi (Sleep d # Get k # tr) =
     (lo \<le> d \<and> d \<le> hi \<and> sleeps_before_gets lo hi tr)"
| "sleeps_before_gets lo hi tr = False"

text \<open>Two networks for the examples: every GET answers 404; every GET times out
  except that the second raises something that is no HTTP error. The generator of
  the examples always draws 0.\<close>

definition always_404 :: "string \<Rightarrow> int \<Rightarrow> httpx_error + Response" where
  "always_404 url attempt = Inr \<lparr>status_code = 404, text_body = ''''\<rparr>"

definition second_unexpected :: "string \<Rightarrow> int \<Rightarrow> httpx_error + Response" where
  "second_unexpected url attempt =
     (if attempt = 2 then Inl (NonHTTPError ''boom'') else Inl (TimeoutException ''''))"

definition draw_zero :: "int \<Rightarrow> nat" where
  "draw_zero attempt = 0"

section \<open>The page record store: \<^verbatim>\<open>src/models/db_models.py\<close>, \<^verbatim>\<open>src/storage/sql_crud.py\<close>\<close>

text \<open>
  A row of the table \<^verbatim>\<open>crawled_pages\<close>. The column \<^verbatim>\<open>id\<close> is \<open>row_id\<close> here
  (\<open>id\<close> is the identity function of HOL). Nullable columns are options. A
  \<^verbatim>\<open>datetime\<close> is a number of microseconds.
\<close>

type_synonym datetime = nat

record CrawledPage =
  row_id :: nat
  url :: string
  content :: string
  npc_name :: string
  has_image :: bool
  image_url :: "string option"
  image_filename :: "string option"
  image_status :: "string option"
  image_size :: "int option"
  status :: string
  html_file_size :: int
  crawled_at :: datetime
  updated_at :: datetime

text \<open>
  The table is the list of its rows in rowid order. SQLite gives a new row of an
  \<^verbatim>\<open>INTEGER PRIMARY KEY\<close> table the largest rowid plus one.
  \<^verbatim>\<open>session.query(CrawledPage).filter_by(url=url).first()\<close> is the first row with that URL.
\<close>

type_synonym crawled_pages = "CrawledPage list"

definition next_row_id :: "crawled_pages \<Rightarrow> nat" where
  "next_row_id db = fold max (map row_id db) 0 + 1"

definition get_crawled_page :: "crawled_pages \<Rightarrow> string \<Rightarrow> CrawledPage option" where
  "get_crawled_page db u = find (\<lambda>r. url r = u) db"

text \<open>Python's truth value of an \<^verbatim>\<open>Optional[str]\<close>: false for \<^verbatim>\<open>None\<close> and for the empty string.\<close>

definition truthy :: "string option \<Rightarrow> bool" where
  "truthy s = (case s of None \<Rightarrow> False | Some v \<Rightarrow> v \<noteq> [])"

text \<open>The object that \<^verbatim>\<open>first()\<close> answered is mutated in place; the other rows stay.\<close>

fun update_first :: "('a \<Rightarrow> bool) \<Rightarrow> ('a \<Rightarrow> 'a) \<Rightarrow> 'a list \<Rightarrow> 'a list" where
  "update_first p f [] = []"
| "update_first p f (x # xs) = (if p x then f x # xs else x # update_first p f xs)"

text \<open>
  The three guarded assignments \<^verbatim>\<open>if image_url: page.image_url = image_url\<close> and so
  on, followed by the unguarded \<^verbatim>\<open>page.image_size = image_size\<close>; both branches of
  \<^verbatim>\<open>add_crawled_page\<close> run them.
\<close>

definition set_image_fields ::
  "string option \<Rightarrow> string option \<Rightarrow> string option \<Rightarrow> int \<Rightarrow> CrawledPage \<Rightarrow> CrawledPage" where
  "set_image_fields iu ifn ist isz page =
     (let page = (if truthy iu then page\<lparr>image_url := iu\<rparr> else page);
          page = (if truthy ifn then page\<lparr>image_filename := ifn\<rparr> else page);
          page = (if truthy ist then page\<lparr>image_status := ist\<rparr> else page)
      in page\<lparr>image_size := Some isz\<rparr>)"

text \<open>
  SQLite stores an \<^verbatim>\<open>INTEGER\<close> in 64 bits, signed; the driver refuses to bind a Python
  integer outside that range (\<^verbatim>\<open>OverflowError\<close>). The model of \<^verbatim>\<open>add_crawled_page\<close>
  below is for sizes within the range, and the theorems about it say so.
\<close>

definition sqlite_integer :: "int \<Rightarrow> bool" where
  "sqlite_integer n \<longleftrightarrow> - (2 ^ 63) \<le> n \<and> n < 2 ^ 63"

text \<open>
  \<^verbatim>\<open>add_crawled_page(url, npc_name, html_filename, has_image, image_url, image_filename,
  image_status, image_size, status, html_file_size)\<close>, with the arguments in the order of
  the signature. \<open>now\<close> holds what \<^verbatim>\<open>datetime.now(timezone.utc)\<close> answers to the
  calls of this upsert: the update branch reads the clock once (\<open>fst now\<close>), the insert
  branch twice, first for \<^verbatim>\<open>crawled_at\<close> (\<open>fst now\<close>) and then for \<^verbatim>\<open>updated_at\<close>
  (\<open>snd now\<close>). A new row leaves \<^verbatim>\<open>image_url\<close> and \<^verbatim>\<open>image_filename\<close> NULL and
  \<^verbatim>\<open>image_status\<close> at its column default \<^verbatim>\<open>no_image\<close> unless the guarded assignments
  set them. The session commits when the block ends.
\<close>

definition add_crawled_page ::
  "crawled_pages \<Rightarrow> datetime \<times> datetime \<Rightarrow> string \<Rightarrow> string \<Rightarrow> string \<Rightarrow> bool \<Rightarrow>
   string option \<Rightarrow> string option \<Rightarrow> string option \<Rightarrow> int \<Rightarrow> string \<Rightarrow> int \<Rightarrow> crawled_pages" where
  "add_crawled_page db now u name html_filename hi iu ifn ist isz st hsz =
     (case find (\<lambda>r. url r = u) db of
        Some crawled_page \<Rightarrow>
          update_first (\<lambda>r. url r = u)
            (\<lambda>page. (set_image_fields iu ifn ist isz
                        (page\<lparr>npc_name := name, content := html_filename, status := st,
                              html_file_size := hsz, has_image := hi\<rparr>))
                     \<lparr>updated_at := fst now\<rparr>) db
      | None \<Rightarrow>
          db @ [set_image_fields iu ifn ist isz
                  \<lparr>row_id = next_row_id db, url = u, content = html_filename,
                   npc_name = name, has_image = hi, image_url = None,
                   image_filename = None, image_status = Some ''no_image'',
                   image_size = Some 0, status = st, html_file_size = hsz,
                   crawled_at = fst now, updated_at = snd now\<rparr>])"

section \<open>Strings and URLs: Python's \<^verbatim>\<open>str\<close> methods and \<^verbatim>\<open>urllib.parse\<close>\<close>

text \<open>
  The helpers and the crawler lean on a few \<^verbatim>\<open>str\<close> methods and on
  \<^verbatim>\<open>urllib.parse\<close> (\<^verbatim>\<open>urlparse\<close>, \<^verbatim>\<open>urljoin\<close>, \<^verbatim>\<open>unquote\<close>) of the standard
  library. These are not code of the repository; they are written out here after
  CPython 3.12's \<^verbatim>\<open>Lib/urllib/parse.py\<close>, so that the repository's functions can be
  run on concrete URLs. A string is a list of bytes. Left out of the model: the
  decoding of percent-escapes to Unicode in \<^verbatim>\<open>unquote\<close> (the escapes are decoded to
  bytes), and the further checks of a network location that holds both brackets or
  non-ASCII characters (\<^verbatim>\<open>_check_bracketed_netloc\<close>, \<^verbatim>\<open>_checknetloc\<close>), which can
  only raise \<^verbatim>\<open>ValueError\<close> on more inputs.
\<close>

text \<open>\<^verbatim>\<open>s.split(c)\<close> for a separator of one character: never empty.\<close>

fun split_on :: "char \<Rightarrow> string \<Rightarrow> string list" where
  "split_on c [] = [[]]"
| "split_on c (x # xs) =
     (if x = c then [] # split_on c xs
      else (x # hd (split_on c xs)) # tl (split_on c xs))"

text \<open>\<^verbatim>\<open>sep.join(parts)\<close> for a separator of one character.\<close>

fun join_with :: "char \<Rightarrow> string list \<Rightarrow> string" where
  "join_with c [] = []"
| "join_with c [p] = p"
| "join_with c (p # q # ps) = p @ c # join_with c (q # ps)"

text \<open>\<^verbatim>\<open>s.startswith(p)\<close> and \<^verbatim>\<open>s.replace(old, new)\<close> (every occurrence, left to
  right, none overlapping; the callers replace a non-empty \<open>old\<close>).\<close>

fun startswith :: "string \<Rightarrow> string \<Rightarrow> bool" where
  "startswith s [] = True"
| "startswith [] (p # ps) = False"
| "startswith (x # xs) (p # ps) = (x = p \<and> startswith xs ps)"

fun replace :: "string \<Rightarrow> string \<Rightarrow> string \<Rightarrow> string" where
  "replace [] old new = []"
| "replace (x # xs) old new =
     (if old \<noteq> [] \<and> startswith (x # xs) old
      then new @ replace (drop (length old) (x # xs)) old new
      else x # replace xs old new)"

definition ascii_lowercase :: string where
  "ascii_lowercase = ''abcdefghijklmnopqrstuvwxyz''"

definition ascii_uppercase :: string where
  "ascii_uppercase = ''ABCDEFGHIJKLMNOPQRSTUVWXYZ''"

definition digits :: string where
  "digits = ''0123456789''"

definition lower :: "string \<Rightarrow> string" where
  "lower s = map (\<lambda>c. case map_of (zip ascii_uppercase ascii_lowercase) c of
                        Some l \<Rightarrow> l | None \<Rightarrow> c) s"

text \<open>The tables of \<^verbatim>\<open>urllib.parse\<close>.\<close>

definition scheme_chars :: string where
  "scheme_chars = ascii_lowercase @ ascii_uppercase @ digits @ ''+-.''"

definition uses_relative :: "string list" where
  "uses_relative = ['''', ''ftp'', ''http'', ''gopher'', ''nntp'', ''imap'', ''wais'', ''file'',
     ''https'', ''shttp'', ''mms'', ''prospero'', ''rtsp'', ''rtsps'', ''rtspu'', ''sftp'',
     ''svn'', ''svn+ssh'', ''ws'', ''wss'']"

definition uses_netloc :: "string list" where
  "uses_netloc = ['''', ''ftp'', ''http'', ''gopher'', ''nntp'', ''telnet'', ''imap'', ''wais'',
     ''file'', ''mms'', ''https'', ''shttp'', ''snews'', ''prospero'', ''rtsp'', ''rtsps'',
     ''rtspu'', ''rsync'', ''svn'', ''svn+ssh'', ''sftp'', ''nfs'', ''git'', ''git+ssh'',
     ''ws'', ''wss'', ''itms-services'']"

definition uses_params :: "string list" where
  "uses_params = ['''', ''ftp'', ''hdl'', ''prospero'', ''http'', ''imap'', ''https'', ''shttp'',
     ''rtsp'', ''rtsps'', ''rtspu'', ''sip'', ''sips'', ''mms'', ''sftp'', ''tel'']"

text \<open>
  \<^verbatim>\<open>urlsplit(url, scheme)\<close>: the five parts scheme, netloc, path, query, fragment.
  Leading C0 control characters and spaces are stripped, tabs and line breaks
  removed. A scheme is recognised when the text before the first colon is non-empty,
  starts with a letter and has scheme characters only. A network location follows
  \<^verbatim>\<open>//\<close> and ends before the first of \<^verbatim>\<open>/ ? #\<close>; one bracket without the other raises
  \<^verbatim>\<open>ValueError("Invalid IPv6 URL")\<close>. The fragment starts behind the first \<^verbatim>\<open>#\<close>,
  the query behind the first \<^verbatim>\<open>?\<close> before it.
\<close>

definition lstrip_c0_or_space :: "string \<Rightarrow> string" where
  "lstrip_c0_or_space s = dropWhile (\<lambda>c. (of_char c :: nat) \<le> 32) s"

definition remove_unsafe_bytes :: "string \<Rightarrow> string" where
  "remove_unsafe_bytes s = filter (\<lambda>c. (of_char c :: nat) \<notin> {9, 10, 13}) s"

text \<open>\<^verbatim>\<open>before, after = s.split(c, 1)\<close>, used when \<open>c\<close> occurs in \<open>s\<close>.\<close>

definition split_once :: "char \<Rightarrow> string \<Rightarrow> string \<times> string" where
  "split_once c s = (takeWhile (\<lambda>x. x \<noteq> c) s, drop 1 (dropWhile (\<lambda>x. x \<noteq> c) s))"

definition split_scheme :: "string \<Rightarrow> string \<Rightarrow> string \<times> string" where
  "split_scheme s dflt =
     (let candidate = takeWhile (\<lambda>c. c \<noteq> CHR '':'') s
      in if CHR '':'' \<in> set s \<and> candidate \<noteq> [] \<and>
            hd s \<in> set (ascii_lowercase @ ascii_uppercase) \<and>
            (\<forall>c \<in> set candidate. c \<in> set scheme_chars)
         then (lower candidate, drop (length candidate + 1) s)
         else (dflt, s))"

definition splitnetloc :: "string \<Rightarrow> string \<times> string" where
  "splitnetloc s =
     (let rest = drop 2 s
      in (takeWhile (\<lambda>c. c \<notin> set ''/?#'') rest, dropWhile (\<lambda>c. c \<notin> set ''/?#'') rest))"

definition urlsplit ::
  "string \<Rightarrow> string \<Rightarrow> exn + (string \<times> string \<times> string \<times> string \<times> string)" where
  "urlsplit s dflt =
     (let s = remove_unsafe_bytes (lstrip_c0_or_space s);
          dflt = remove_unsafe_bytes
                   (rev (lstrip_c0_or_space (rev (lstrip_c0_or_space dflt))));
          (scheme, s) = split_scheme s dflt;
          (netloc, s) = (if take 2 s = ''//'' then splitnetloc s else ('''', s))
      in if (CHR ''['' \<in> set netloc \<and> CHR '']'' \<notin> set netloc) \<or>
            (CHR '']'' \<in> set netloc \<and> CHR ''['' \<notin> set netloc)
         then Inl (ValueError ''Invalid IPv6 URL'')
         else
           let (s, fragment) = (if CHR ''#'' \<in> set s then split_once CHR ''#'' s else (s, ''''));
               (s, query) = (if CHR ''?'' \<in> set s then split_once CHR ''?'' s else (s, ''''))
           in Inr (scheme, netloc, s, query, fragment))"

text \<open>
  \<^verbatim>\<open>urlparse\<close> cuts the parameters off the last segment of the path, for the schemes
  of \<^verbatim>\<open>uses_params\<close>: \<^verbatim>\<open>_splitparams\<close> splits at the first \<^verbatim>\<open>;\<close> behind the last
  \<^verbatim>\<open>/\<close>. The six parts are scheme, netloc, path, params, query, fragment.
\<close>

definition last_segment :: "string \<Rightarrow> string" where
  "last_segment s = rev (takeWhile (\<lambda>c. c \<noteq> CHR ''/'') (rev s))"

definition splitparams :: "string \<Rightarrow> string \<times> string" where
  "splitparams s =
     (let seg = last_segment s; head = take (length s - length seg) s
      in if CHR '';'' \<in> set seg
         then (head @ takeWhile (\<lambda>c. c \<noteq> CHR '';'') seg,
               drop 1 (dropWhile (\<lambda>c. c \<noteq> CHR '';'') seg))
         else (s, ''''))"

definition urlparse ::
  "string \<Rightarrow> string \<Rightarrow> exn + (string \<times> string \<times> string \<times> string \<times> string \<times> string)" where
  "urlparse s dflt =
     (case urlsplit s dflt of
        Inl e \<Rightarrow> Inl e
      | Inr (scheme, netloc, p, query, fragment) \<Rightarrow>
          if scheme \<in> set uses_params \<and> CHR '';'' \<in> set p
          then let (p, params) = splitparams p
               in Inr (scheme, netloc, p, params, query, fragment)
          else Inr (scheme, netloc, p, '''', query, fragment))"

definition urlunsplit :: "string \<times> string \<times> string \<times> string \<times> string \<Rightarrow> string" where
  "urlunsplit parts =
     (case parts of (scheme, netloc, p, query, fragment) \<Rightarrow>
        let p = (if netloc \<noteq> [] \<or> (scheme \<noteq> [] \<and> scheme \<in> set uses_netloc \<and> take 2 p \<noteq> ''//'')
                 then ''//'' @ netloc @ (if p \<noteq> [] \<and> take 1 p \<noteq> ''/'' then ''/'' @ p else p)
                 else p);
            p = (if scheme \<noteq> [] then scheme @ '':'' @ p else p);
            p = (if query \<noteq> [] then p @ ''?'' @ query else p)
        in if fragment \<noteq> [] then p @ ''#'' @ fragment else p)"

definition urlunparse ::
  "string \<times> string \<times> string \<times> string \<times> string \<times> string \<Rightarrow> string" where
  "urlunparse parts =
     (case parts of (scheme, netloc, p, params, query, fragment) \<Rightarrow>
        urlunsplit (scheme, netloc, (if params \<noteq> [] then p @ '';'' @ params else p),
                    query, fragment))"

text \<open>
  \<^verbatim>\<open>urljoin(base, url)\<close>. The loop over the segments resolves \<^verbatim>\<open>.\<close> and \<^verbatim>\<open>..\<close>;
  \<^verbatim>\<open>segments[1:-1] = filter(None, segments[1:-1])\<close> drops the empty segments between
  the first and the last.
\<close>

fun resolve_segments :: "string list \<Rightarrow> string list \<Rightarrow> string list" where
  "resolve_segments [] resolved_path = resolved_path"
| "resolve_segments (seg # segs) resolved_path =
     (if seg = ''..'' then resolve_segments segs (butlast resolved_path)
      else if seg = ''.'' then resolve_segments segs resolved_path
      else resolve_segments segs (resolved_path @ [seg]))"

definition filter_inner :: "string list \<Rightarrow> string list" where
  "filter_inner segments =
     (if length segments \<le> 1 then segments
      else hd segments # filter (\<lambda>s. s \<noteq> []) (butlast (tl segments)) @ [last segments])"

definition urljoin :: "string \<Rightarrow> string \<Rightarrow> exn + string" where
  "urljoin base s =
     (if base = [] then Inr s
      else if s = [] then Inr base
      else case urlparse base '''' of
        Inl e \<Rightarrow> Inl e
      | Inr (bscheme, bnetloc, bpath, bparams, bquery, bfragment) \<Rightarrow>
         (case urlparse s bscheme of
            Inl e \<Rightarrow> Inl e
          | Inr (scheme, netloc, p, params, query, fragment) \<Rightarrow>
              if scheme \<noteq> bscheme \<or> scheme \<notin> set uses_relative then Inr s
              else if scheme \<in> set uses_netloc \<and> netloc \<noteq> []
                then Inr (urlunparse (scheme, netloc, p, params, query, fragment))
              else
                let netloc = (if scheme \<in> set uses_netloc then bnetloc else netloc)
                in if p = [] \<and> params = []
                   then Inr (urlunparse (scheme, netloc, bpath, bparams,
                               (if query = [] then bquery else query), fragment))
                   else
                     let base_parts = split_on CHR ''/'' bpath;
                         base_parts = (if last base_parts \<noteq> [] then butlast base_parts
                                       else base_parts);
                         segments = (if take 1 p = ''/'' then split_on CHR ''/'' p
                                     else filter_inner (base_parts @ split_on CHR ''/'' p));
                         resolved_path = resolve_segments segments [];
                         resolved_path = (if last segments \<in> {''.'', ''..''}
                                          then resolved_path @ [''''] else resolved_path);
                         joined = join_with CHR ''/'' resolved_path
                     in Inr (urlunparse (scheme, netloc,
                               (if joined = [] then ''/'' else joined),
                               params, query, fragment))))"

text \<open>
  \<^verbatim>\<open>unquote\<close>, on bytes: \<^verbatim>\<open>%\<close> followed by two hexadecimal digits is the byte they
  name; any other text is kept.
\<close>

definition hex_value :: "char \<Rightarrow> nat option" where
  "hex_value c = map_of (zip ''0123456789abcdefABCDEF''
     [0, 1, 2, 3, 4, 5, 6, 7, 8, 9, 10, 11, 12, 13, 14, 15, 10, 11, 12, 13, 14, 15]) c"

fun unquote :: "string \<Rightarrow> string" where
  "unquote (p # h # l # rest) =
     (if p = CHR ''%'' then
        (case (hex_value h, hex_value l) of
           (Some a, Some b) \<Rightarrow> char_of (16 * a + b) # unquote rest
         | _ \<Rightarrow> p # unquote (h # l # rest))
      else p # unquote (h # l # rest))"
| "unquote s = s"

section \<open>The helpers: \<^verbatim>\<open>src/utils/helpers.py\<close>\<close>

text \<open>
  \<^verbatim>\<open>url_to_filename(url, extension="html")\<close>: the text behind the last \<^verbatim>\<open>/\<close> of the
  parsed path, up to a \<^verbatim>\<open>#\<close>; \<^verbatim>\<open>unnamed\<close> if that is empty; then the extension
  behind a dot, unless the extension is \<^verbatim>\<open>None\<close>. \<^verbatim>\<open>urlparse\<close> may raise.
\<close>

definition url_to_filename :: "string \<Rightarrow> string option \<Rightarrow> exn + string" where
  "url_to_filename s extension =
     (case urlparse s '''' of
        Inl e \<Rightarrow> Inl e
      | Inr (scheme, netloc, p, params, query, fragment) \<Rightarrow>
          let filename = last (split_on CHR ''/'' p);
              filename = hd (split_on CHR ''#'' filename);
              filename = (if filename = [] then ''unnamed'' else filename)
          in case extension of
               None \<Rightarrow> Inr filename
             | Some ext \<Rightarrow> Inr (filename @ ''.'' @ ext))"

definition extract_npc_name_from_url :: "string \<Rightarrow> exn + string" where
  "extract_npc_name_from_url s =
     (case urlparse s '''' of
        Inl e \<Rightarrow> Inl e
      | Inr (scheme, netloc, p, params, query, fragment) \<Rightarrow>
          let name = hd (split_on CHR ''#'' (last (split_on CHR ''/'' p)));
              name = unquote name
          in Inr (map (\<lambda>c. if c = CHR ''_'' then CHR '' '' else c) name))"

section \<open>Parsed HTML: the part of BeautifulSoup the crawler uses\<close>

text \<open>
  \<^verbatim>\<open>BeautifulSoup(html, "html.parser")\<close> turns the text of a page into a tree. The
  parser is library code and is not modelled: the functions below start from the tree.
  A node is a tag with its name, its attributes (a dictionary, here an association
  list read with \<open>map_of\<close>) and its contents, or a string. The soup object itself is
  the tag at the root.
\<close>

datatype node = Tag string "(string \<times> string) list" "node list" | NavigableString string

text \<open>\<^verbatim>\<open>tag.descendants\<close>: every node below the tag, in document order.\<close>

fun descendants :: "node \<Rightarrow> node list" where
  "descendants (Tag name attrs contents) = concat (map (\<lambda>c. c # descendants c) contents)"
| "descendants (NavigableString s) = []"

fun tag_named :: "string \<Rightarrow> node \<Rightarrow> bool" where
  "tag_named name (Tag n attrs contents) = (n = name)"
| "tag_named name (NavigableString s) = False"

text \<open>\<^verbatim>\<open>tag.get(key)\<close>: the attribute's value, or \<^verbatim>\<open>None\<close>.\<close>

fun get_attr :: "node \<Rightarrow> string \<Rightarrow> string option" where
  "get_attr (Tag n attrs contents) key = map_of attrs key"
| "get_attr (NavigableString s) key = None"

text \<open>
  \<^verbatim>\<open>class\<close> is a multi-valued attribute: BeautifulSoup keeps the list of the runs of
  non-whitespace characters of its value (\<^verbatim>\<open>re.findall(r"\S+", value)\<close>), and a search
  for a class without whitespace matches a tag when the class is in that list.
\<close>

definition isspace :: "char \<Rightarrow> bool" where
  "isspace c \<longleftrightarrow> (of_char c :: nat) \<in> {9, 10, 11, 12, 13, 28, 29, 30, 31, 32}"

fun nonwhitespace_runs_from :: "string \<Rightarrow> string \<Rightarrow> string list" where
  "nonwhitespace_runs_from run [] = (if run = [] then [] else [run])"
| "nonwhitespace_runs_from run (c # cs) =
     (if isspace c
      then (if run = [] then nonwhitespace_runs_from [] cs
            else run # nonwhitespace_runs_from [] cs)
      else nonwhitespace_runs_from (run @ [c]) cs)"

definition nonwhitespace_runs :: "string \<Rightarrow> string list" where
  "nonwhitespace_runs v = nonwhitespace_runs_from [] v"

definition has_class :: "string \<Rightarrow> node \<Rightarrow> bool" where
  "has_class cls n =
     (case get_attr n ''class'' of
        None \<Rightarrow> False
      | Some v \<Rightarrow> cls \<in> set (nonwhitespace_runs v))"

text \<open>
  \<^verbatim>\<open>tag.string\<close>: the one string below a tag whose contents, and whose only child's
  contents, and so on, are a single node; \<^verbatim>\<open>None\<close> otherwise.
\<close>

fun node_string :: "node \<Rightarrow> string option" where
  "node_string (NavigableString s) = Some s"
| "node_string (Tag name attrs []) = None"
| "node_string (Tag name attrs [c]) = node_string c"
| "node_string (Tag name attrs (c # d # cs)) = None"

text \<open>
  \<^verbatim>\<open>find_all\<close> answers the descendants that match, in document order, and \<^verbatim>\<open>find\<close>
  the first of them or \<^verbatim>\<open>None\<close>. The three searches of the crawler and the image
  extractor: by name, by name and class, by name and string.
\<close>

definition find_all :: "(node \<Rightarrow> bool) \<Rightarrow> node \<Rightarrow> node list" where
  "find_all matches root = filter matches (descendants root)"

definition find_first :: "(node \<Rightarrow> bool) \<Rightarrow> node \<Rightarrow> node option" where
  "find_first matches root = find matches (descendants root)"

section \<open>The list-page parser: \<^verbatim>\<open>WikiNPCSpider.parse_npc_list_page\<close>\<close>

text \<open>
  The loop \<^verbatim>\<open>for li in content_div.find_all(name="li")\<close>: the first \<^verbatim>\<open>a\<close> below the
  item, if it has a non-empty \<^verbatim>\<open>href\<close>, gives \<^verbatim>\<open>urljoin(self.base_url, href)\<close>. A tag
  is always true in Python, so \<^verbatim>\<open>if link\<close> asks whether one was found. \<^verbatim>\<open>urljoin\<close> may
  raise; nothing in the parser catches that.
\<close>

fun npc_links_loop :: "string \<Rightarrow> node list \<Rightarrow> string list \<Rightarrow> exn + string list" where
  "npc_links_loop base_url [] npc_links = Inr npc_links"
| "npc_links_loop base_url (li # lis) npc_links =
     (case find_first (tag_named ''a'') li of
        None \<Rightarrow> npc_links_loop base_url lis npc_links
      | Some link \<Rightarrow>
          if truthy (get_attr link ''href'')
          then (case urljoin base_url (the (get_attr link ''href'')) of
                  Inl e \<Rightarrow> Inl e
                | Inr full_url \<Rightarrow> npc_links_loop base_url lis (npc_links @ [full_url]))
          else npc_links_loop base_url lis npc_links)"

text \<open>
  The parser answers the pair \<^verbatim>\<open>(npc_urls, next_page_url)\<close> of a
  \<^verbatim>\<open>CrawlNPCListPageResult\<close>. Of several \<^verbatim>\<open>div\<close>s of class \<^verbatim>\<open>mw-category\<close> it reads the
  second, of one the only one.
\<close>

definition parse_npc_list_page :: "string \<Rightarrow> node \<Rightarrow> exn + (string list \<times> string option)" where
  "parse_npc_list_page base_url soup =
     (let content_divs = find_all (\<lambda>n. tag_named ''div'' n \<and> has_class ''mw-category'' n) soup
      in if content_divs = [] then Inr ([], None)
         else
           let content_div = (if length content_divs > 1 then content_divs ! 1
                              else content_divs ! 0)
           in case npc_links_loop base_url (find_all (tag_named ''li'') content_div) [] of
                Inl e \<Rightarrow> Inl e
              | Inr npc_links \<Rightarrow>
                 (case find_first (\<lambda>n. tag_named ''a'' n \<and> node_string n = Some ''next page'')
                         soup of
                    None \<Rightarrow> Inr (npc_links, None)
                  | Some next_page_link \<Rightarrow>
                      if truthy (get_attr next_page_link ''href'')
                      then (case urljoin base_url (the (get_attr next_page_link ''href'')) of
                              Inl e \<Rightarrow> Inl e
                            | Inr next_page_url \<Rightarrow> Inr (npc_links, Some next_page_url))
                      else Inr (npc_links, None)))"

text \<open>
  Vocabulary for the claim: the \<^verbatim>\<open>href\<close>s that the loop reads below a container, in
  the order of its list items.
\<close>

definition item_href :: "node \<Rightarrow> string option" where
  "item_href li =
     (case find_first (tag_named ''a'') li of
        None \<Rightarrow> None
      | Some link \<Rightarrow> if truthy (get_attr link ''href'') then get_attr link ''href'' else None)"

definition item_hrefs :: "node \<Rightarrow> string list" where
  "item_hrefs content_div = List.map_filter item_href (find_all (tag_named ''li'') content_div)"

text \<open>
  Two pages for the examples. The first has two category containers, with one link
  in the first and two in the second, and a pagination anchor. The second is
  \<^verbatim>\<open><div class="mw-category"><ul><li><a href="//[">x</a></li></ul></div>\<close>.
\<close>

definition two_containers_page :: node where
  "two_containers_page =
     Tag ''[document]'' []
       [Tag ''div'' [(''class'', ''mw-category'')]
          [Tag ''ul'' [] [Tag ''li'' [] [Tag ''a'' [(''href'', ''/w/Category:Monsters'')]
                                          [NavigableString ''Monsters'']]]],
        Tag ''a'' [(''href'', ''/w/Category:Non-player_characters?pagefrom=A'')]
          [NavigableString ''next page''],
        Tag ''div'' [(''class'', ''mw-category mw-category-columns'')]
          [Tag ''ul'' []
             [Tag ''li'' [] [Tag ''a'' [(''href'', ''/w/1337mage43'')]
                               [NavigableString ''1337mage43'']],
              Tag ''li'' [] [Tag ''a'' [(''href'', ''/w/50%25_Luke'')]
                               [NavigableString ''50% Luke'']]]]]"

definition bad_href_page :: node where
  "bad_href_page =
     Tag ''[document]'' []
       [Tag ''div'' [(''class'', ''mw-category'')]
          [Tag ''ul'' [] [Tag ''li'' [] [Tag ''a'' [(''href'', ''//['')]
                                          [NavigableString ''x'']]]]]"

section \<open>Frontier exclusivity\<close>

lemma sadd_single: "sadd S [v] = ((if v |\<in>| S then 0 else 1), finsert v S)"
proof -
  have "fset_of_list [v] |-| S = (if v |\<in>| S then {||} else {|v|})"
    by auto
  then show ?thesis
    by (auto simp: sadd_def fcard.rep_eq)
qed

lemma add_to_queue_visited:
  "link |\<in>| visited_urls m \<Longrightarrow> add_to_queue m link = (False, m)"
  by (simp add: add_to_queue_def is_visited_def sismember_def)

lemma add_to_queue_pending:
  "link |\<in>| crawl_queue m \<Longrightarrow> fst (add_to_queue m link) = False \<and>
     crawl_queue (snd (add_to_queue m link)) = crawl_queue m"
  by (auto simp: add_to_queue_def sadd_single finsert_absorb)

text \<open>
  The invariant behind exclusivity: \<open>u\<close> is visited and not pending. Every event
  other than \<^verbatim>\<open>clear_all\<close> keeps it, and no event that keeps it dequeues \<open>u\<close>.
\<close>

definition settled :: "string \<Rightarrow> URLManager \<Rightarrow> bool" where
  "settled u m \<longleftrightarrow> u |\<in>| visited_urls m \<and> u |\<notin>| crawl_queue m"

lemma add_to_queue_settled:
  assumes "settled u m" and "add_to_queue m link = (b, m')"
  shows "settled u m'"
  using assms
  by (auto simp: settled_def add_to_queue_def is_visited_def sismember_def sadd_single
      split: if_splits)

lemma add_multiple_to_queue_settled:
  assumes "settled u m" and "add_multiple_to_queue m urls = (n, m')"
  shows "settled u m'"
proof -
  from assms(1) have "u \<notin> set (filter (\<lambda>link. \<not> is_visited m link) urls)"
    by (simp add: settled_def is_visited_def sismember_def)
  with assms show ?thesis
    by (auto simp: settled_def add_multiple_to_queue_def sadd_def fset_of_list.rep_eq
        Let_def split: if_splits)
qed

lemma um_step_settled:
  assumes "um_step m e m'" and "settled u m" and "e \<noteq> ClearAll"
  shows "settled u m' \<and> e \<noteq> GetNextUrl (Some u)"
  using assms
proof (induction rule: um_step.induct)
  case (step_add m link b m')
  then show ?case by (auto dest: add_to_queue_settled)
next
  case (step_add_multiple m urls n m')
  then show ?case by (auto dest: add_multiple_to_queue_settled)
next
  case (step_next m r m')
  then show ?case
    by (auto simp: settled_def elim!: get_next_url.cases spop.cases)
next
  case (step_visited m link)
  then show ?case by (auto simp: settled_def mark_visited_def sadd_single)
next
  case (step_failed m link err)
  then show ?case by (simp add: settled_def mark_failed_def)
next
  case (step_add_image m iurl name purl b m')
  then show ?case
    by (auto simp: settled_def add_to_image_queue_def Let_def split: prod.splits)
next
  case (step_next_image m r m')
  then show ?case
    by (auto simp: settled_def elim!: get_next_image_data.cases)
next
  case (step_clear m)
  then show ?case by simp
qed

lemma um_run_settled:
  assumes "um_run m es m'" and "settled u m" and "ClearAll \<notin> set es"
  shows "settled u m' \<and> GetNextUrl (Some u) \<notin> set es"
  using assms
proof (induction rule: um_run.induct)
  case (run_nil m)
  then show ?case by simp
next
  case (run_cons m e m' es m'')
  from run_cons.prems have ne: "e \<noteq> ClearAll" and rest: "ClearAll \<notin> set es"
    by auto
  from run_cons.hyps(1) run_cons.prems(1) ne
  have step: "settled u m' \<and> e \<noteq> GetNextUrl (Some u)"
    by (rule um_step_settled)
  with run_cons.IH rest show ?case by auto
qed

lemma um_step_visited_kept:
  assumes "um_step m e m'" and "u |\<in>| visited_urls m" and "e \<noteq> ClearAll"
  shows "u |\<in>| visited_urls m'"
  using assms
proof (induction rule: um_step.induct)
  case (step_add m link b m')
  then show ?case
    by (auto simp: add_to_queue_def sadd_single split: if_splits)
next
  case (step_add_multiple m urls n m')
  then show ?case
    by (auto simp: add_multiple_to_queue_def sadd_def Let_def split: if_splits)
next
  case (step_next m r m')
  then show ?case by (auto elim!: get_next_url.cases)
next
  case (step_visited m link)
  then show ?case by (simp add: mark_visited_def sadd_single)
next
  case (step_failed m link err)
  then show ?case by (simp add: mark_failed_def)
next
  case (step_add_image m iurl name purl b m')
  then show ?case
    by (auto simp: add_to_image_queue_def Let_def split: prod.splits)
next
  case (step_next_image m r m')
  then show ?case by (auto elim!: get_next_image_data.cases)
next
  case (step_clear m)
  then show ?case by simp
qed

lemma um_run_visited_kept:
  assumes "um_run m es m'" and "u |\<in>| visited_urls m" and "ClearAll \<notin> set es"
  shows "u |\<in>| visited_urls m'"
  using assms
proof (induction rule: um_run.induct)
  case (run_nil m)
  then show ?case by simp
next
  case (run_cons m e m' es m'')
  from run_cons.prems have ne: "e \<noteq> ClearAll" and rest: "ClearAll \<notin> set es"
    by auto
  from run_cons.hyps(1) run_cons.prems(1) ne have "u |\<in>| visited_urls m'"
    by (rule um_step_visited_kept)
  with run_cons.IH rest show ?case by simp
qed

lemma mark_visited_visited: "u |\<in>| visited_urls (mark_visited m u)"
  by (simp add: mark_visited_def sadd_single)

lemma mark_visited_queue: "crawl_queue (mark_visited m u) = crawl_queue m"
  by (simp add: mark_visited_def)

text \<open>
  Claim C1, as the code has it. After \<^verbatim>\<open>mark_visited(u)\<close>, in every state that later calls
  reach without \<^verbatim>\<open>clear_all\<close>, \<^verbatim>\<open>add_to_queue(u)\<close> answers \<^verbatim>\<open>False\<close> and leaves the
  whole frontier as it was. If \<open>u\<close> was not pending when \<^verbatim>\<open>mark_visited(u)\<close> completed,
  no later \<^verbatim>\<open>get_next_url\<close> answers \<open>u\<close>. Enqueueing a URL that is pending and not
  visited answers \<^verbatim>\<open>False\<close> and changes nothing.
\<close>

theorem frontier_exclusivity:
  "(um_run (mark_visited m u) es m1 \<and> ClearAll \<notin> set es \<longrightarrow>
      add_to_queue m1 u = (False, m1)) \<and>
   (um_run (mark_visited m u) es m1 \<and> ClearAll \<notin> set es \<and> u |\<notin>| crawl_queue m \<longrightarrow>
      GetNextUrl (Some u) \<notin> set es) \<and>
   (p |\<in>| crawl_queue m \<and> \<not> is_visited m p \<longrightarrow> add_to_queue m p = (False, m))"
proof (intro conjI impI)
  assume run: "um_run (mark_visited m u) es m1 \<and> ClearAll \<notin> set es"
  then have "u |\<in>| visited_urls m1"
    using mark_visited_visited by (blast intro: um_run_visited_kept)
  then show "add_to_queue m1 u = (False, m1)"
    by (rule add_to_queue_visited)
next
  assume run: "um_run (mark_visited m u) es m1 \<and> ClearAll \<notin> set es \<and> u |\<notin>| crawl_queue m"
  then have "settled u (mark_visited m u)"
    by (simp add: settled_def mark_visited_visited mark_visited_queue)
  with run show "GetNextUrl (Some u) \<notin> set es"
    using um_run_settled by blast
next
  assume pending: "p |\<in>| crawl_queue m \<and> \<not> is_visited m p"
  then have "finsert p (crawl_queue m) = crawl_queue m"
    by (simp add: finsert_absorb)
  with pending show "add_to_queue m p = (False, m)"
    by (simp add: add_to_queue_def sadd_single)
qed

text \<open>
  The theorem at a concrete frontier: \<^verbatim>\<open>b\<close> is pending, \<^verbatim>\<open>a\<close> is marked visited, then
  \<^verbatim>\<open>add_to_queue(a)\<close> is refused and \<^verbatim>\<open>get_next_url\<close> answers \<^verbatim>\<open>b\<close>.
\<close>

theorem frontier_exclusivity_witness:
  "um_run (mark_visited \<lparr>crawl_queue = {|''b''|}, visited_urls = {||},
                         failed_urls = fmempty, image_retry_queue = {||}\<rparr> ''a'')
     [AddToQueue ''a'' False, GetNextUrl (Some ''b'')]
     \<lparr>crawl_queue = {||}, visited_urls = {|''a''|},
      failed_urls = fmempty, image_retry_queue = {||}\<rparr> \<and>
   ClearAll \<notin> set [AddToQueue ''a'' False, GetNextUrl (Some ''b'')] \<and>
   ''a'' |\<notin>| crawl_queue \<lparr>crawl_queue = {|''b''|}, visited_urls = {||},
                              failed_urls = fmempty, image_retry_queue = {||}\<rparr> \<and>
   ''b'' |\<in>| crawl_queue \<lparr>crawl_queue = {|''b''|}, visited_urls = {||},
                             failed_urls = fmempty, image_retry_queue = {||}\<rparr> \<and>
   \<not> is_visited \<lparr>crawl_queue = {|''b''|}, visited_urls = {||},
                  failed_urls = fmempty, image_retry_queue = {||}\<rparr> ''b'' \<and>
   add_to_queue \<lparr>crawl_queue = {||}, visited_urls = {|''a''|},
                 failed_urls = fmempty, image_retry_queue = {||}\<rparr> ''a'' =
     (False, \<lparr>crawl_queue = {||}, visited_urls = {|''a''|},
              failed_urls = fmempty, image_retry_queue = {||}\<rparr>) \<and>
   GetNextUrl (Some ''a'') \<notin> set [AddToQueue ''a'' False, GetNextUrl (Some ''b'')] \<and>
   add_to_queue \<lparr>crawl_queue = {|''b''|}, visited_urls = {||},
                 failed_urls = fmempty, image_retry_queue = {||}\<rparr> ''b'' =
     (False, \<lparr>crawl_queue = {|''b''|}, visited_urls = {||},
              failed_urls = fmempty, image_retry_queue = {||}\<rparr>)"
proof -
  let ?m = "\<lparr>crawl_queue = {|''b''|}, visited_urls = {||},
             failed_urls = fmempty, image_retry_queue = {||}\<rparr>"
  let ?m1 = "\<lparr>crawl_queue = {||}, visited_urls = {|''a''|},
              failed_urls = fmempty, image_retry_queue = {||}\<rparr>"
  let ?es = "[AddToQueue ''a'' False, GetNextUrl (Some ''b'')]"
  have mv: "mark_visited ?m ''a'' = ?m\<lparr>visited_urls := {|''a''|}\<rparr>"
    by (simp add: mark_visited_def sadd_single)
  have s1: "um_step (mark_visited ?m ''a'') (AddToQueue ''a'' False) (mark_visited ?m ''a'')"
    by (rule step_add) (simp add: mv add_to_queue_def is_visited_def sismember_def)
  have "spop {|''b''|} (Some ''b'') ({|''b''|} |-| {|''b''|})"
    by (rule spop_member) simp
  then have "get_next_url (mark_visited ?m ''a'') (Some ''b'')
      ((mark_visited ?m ''a'')\<lparr>crawl_queue := {|''b''|} |-| {|''b''|}\<rparr>)"
    using get_next_url_spop [of "mark_visited ?m ''a''" "Some ''b''" "{|''b''|} |-| {|''b''|}"]
    by (simp add: mv)
  then have s2: "um_step (mark_visited ?m ''a'') (GetNextUrl (Some ''b'')) ?m1"
    using step_next [of "mark_visited ?m ''a''" "Some ''b''"] by (simp add: mv)
  have run: "um_run (mark_visited ?m ''a'') ?es ?m1"
    by (rule run_cons [OF s1]) (rule run_cons [OF s2], rule run_nil)
  have h1: "ClearAll \<notin> set ?es" by simp
  have h2: "''a'' |\<notin>| crawl_queue ?m" by simp
  have h3: "''b'' |\<in>| crawl_queue ?m \<and> \<not> is_visited ?m ''b''"
    by (simp add: is_visited_def sismember_def)
  from frontier_exclusivity [of ?m "''a''" ?es ?m1 "''b''"] run h1 h2 h3
  show ?thesis by simp
qed

text \<open>
  The claim as it is written fails: \<^verbatim>\<open>mark_visited\<close> does not take the URL out of the
  pending set. From the empty frontier, \<^verbatim>\<open>add_to_queue(u)\<close> answers \<^verbatim>\<open>True\<close>,
  \<^verbatim>\<open>mark_visited(u)\<close> follows, a second \<^verbatim>\<open>add_to_queue(u)\<close> answers \<^verbatim>\<open>False\<close>, and
  \<^verbatim>\<open>get_next_url\<close> still answers \<open>u\<close>.
\<close>

theorem frontier_exclusivity_counterexample:
  "um_run \<lparr>crawl_queue = {||}, visited_urls = {||},
           failed_urls = fmempty, image_retry_queue = {||}\<rparr>
     [AddToQueue ''https://example.com/1'' True,
      MarkVisited ''https://example.com/1'',
      AddToQueue ''https://example.com/1'' False,
      GetNextUrl (Some ''https://example.com/1'')]
     \<lparr>crawl_queue = {||}, visited_urls = {|''https://example.com/1''|},
      failed_urls = fmempty, image_retry_queue = {||}\<rparr>"
proof -
  let ?u = "''https://example.com/1''"
  let ?m0 = "\<lparr>crawl_queue = {||}, visited_urls = {||},
              failed_urls = fmempty, image_retry_queue = {||}\<rparr>"
  let ?m1 = "?m0\<lparr>crawl_queue := {|?u|}\<rparr>"
  let ?m2 = "?m1\<lparr>visited_urls := {|?u|}\<rparr>"
  let ?m3 = "?m2\<lparr>crawl_queue := {|?u|} |-| {|?u|}\<rparr>"
  have s1: "um_step ?m0 (AddToQueue ?u True) ?m1"
    by (rule step_add) (simp add: add_to_queue_def is_visited_def sismember_def sadd_single)
  have "mark_visited ?m1 ?u = ?m2"
    by (simp add: mark_visited_def sadd_single)
  then have s2: "um_step ?m1 (MarkVisited ?u) ?m2"
    using step_visited [of ?m1 ?u] by simp
  have s3: "um_step ?m2 (AddToQueue ?u False) ?m2"
    by (rule step_add) (simp add: add_to_queue_def is_visited_def sismember_def)
  have "spop (crawl_queue ?m2) (Some ?u) (crawl_queue ?m2 |-| {|?u|})"
    by (rule spop_member) simp
  then have "get_next_url ?m2 (Some ?u) (?m2\<lparr>crawl_queue := crawl_queue ?m2 |-| {|?u|}\<rparr>)"
    by (rule get_next_url_spop)
  then have s4: "um_step ?m2 (GetNextUrl (Some ?u)) ?m3"
    using step_next [of ?m2 "Some ?u"] by simp
  have "um_run ?m0 [AddToQueue ?u True, MarkVisited ?u, AddToQueue ?u False,
      GetNextUrl (Some ?u)] ?m3"
    by (rule run_cons [OF s1], rule run_cons [OF s2], rule run_cons [OF s3],
        rule run_cons [OF s4], rule run_nil)
  then show ?thesis by simp
qed

section \<open>Fetch retries and the politeness delay\<close>

lemma randint_window:
  "randint (rl - 1) (rl + 3) k = Inr (rl - 1 + int (k mod 5))"
  by (simp add: randint_def)

lemma upto_step: "a \<le> n \<Longrightarrow> [a..n] = a # [a + 1..n]"
  by (simp add: upto_rec1)

lemma gets_append: "gets (tr @ tr') = gets tr @ gets tr'"
  by (induction tr rule: gets.induct) auto

text \<open>The trace of attempts \<open>ks\<close>: each sleeps the drawn delay and sends its GET.\<close>

lemma gets_attempts:
  "gets (concat (map (\<lambda>k. [Sleep (d k), Get k]) ks)) = ks"
  by (induction ks) auto

lemma fetch_loop_exhausted:
  assumes "a \<le> retries f"
    and "\<forall>k. a \<le> k \<and> k \<le> retries f \<longrightarrow> retried (client_get target k)"
  shows "fetch_loop f client_get draw target [a..retries f] response tr =
    (Inl (FetchError (failure_cause (client_get target (retries f)))),
     tr @ concat (map (\<lambda>k. [Sleep (rate_limit f - 1 + int (draw k mod 5)), Get k])
                   [a..retries f]))"
  using assms
proof (induction "nat (retries f - a)" arbitrary: a response tr)
  case 0
  then have last: "a = retries f" by simp
  then have range: "[a..retries f] = [a]" by simp
  from "0.prems"(2) last have "retried (client_get target a)" by simp
  then show ?case
    unfolding range using last
    by (cases "client_get target a" rule: retried.cases)
       (simp_all add: randint_window)
next
  case (Suc n)
  then have more: "a < retries f" by simp
  then have range: "[a..retries f] = a # [a + 1..retries f]"
    by (simp add: upto_step)
  from Suc.prems(2) more have here: "retried (client_get target a)" by simp
  have rest: "\<forall>k. a + 1 \<le> k \<and> k \<le> retries f \<longrightarrow> retried (client_get target k)"
    using Suc.prems(2) by simp
  have n: "n = nat (retries f - (a + 1))" using Suc.hyps(2) by simp
  have le: "a + 1 \<le> retries f" using more by simp
  note IH = Suc.hyps(1) [OF n le rest]
  from here more show ?case
    unfolding range
    by (cases "client_get target a" rule: retried.cases)
       (simp_all add: randint_window IH)
qed

lemma fetch_loop_unexpected:
  assumes "a \<le> j" and "j \<le> retries f"
    and "\<forall>k. a \<le> k \<and> k < j \<longrightarrow> retried (client_get target k)"
    and "client_get target j = Inl (NonHTTPError e)"
  shows "fetch_loop f client_get draw target [a..retries f] response tr =
    (Inl (FetchError (''Unexpected error: '' @ e)),
     tr @ concat (map (\<lambda>k. [Sleep (rate_limit f - 1 + int (draw k mod 5)), Get k]) [a..j]))"
  using assms
proof (induction "nat (j - a)" arbitrary: a response tr)
  case 0
  then have here: "a = j" by simp
  with "0.prems" have range: "[a..retries f] = a # [a + 1..retries f]"
    by (simp add: upto_step)
  from here "0.prems"(4) show ?case
    unfolding range by (simp add: randint_window)
next
  case (Suc n)
  then have more: "a < j" by simp
  with Suc.prems have range: "[a..retries f] = a # [a + 1..retries f]"
    by (simp add: upto_step)
  from more have rangej: "[a..j] = a # [a + 1..j]"
    by (simp add: upto_step)
  from Suc.prems(3) more have here: "retried (client_get target a)" by simp
  have rest: "\<forall>k. a + 1 \<le> k \<and> k < j \<longrightarrow> retried (client_get target k)"
    using Suc.prems(3) by simp
  have n: "n = nat (j - (a + 1))" using Suc.hyps(2) by simp
  have le: "a + 1 \<le> j" using more by simp
  note IH = Suc.hyps(1) [OF n le Suc.prems(2) rest Suc.prems(4)]
  from more Suc.prems(2) have notlast: "a \<noteq> retries f" by simp
  from here notlast show ?case
    unfolding range rangej
    by (cases "client_get target a" rule: retried.cases)
       (simp_all add: randint_window IH)
qed

lemma failure_cause_nonempty: "failure_cause r \<noteq> ''''"
  by (cases r rule: failure_cause.cases) simp_all

text \<open>
  Claim C2. With a maximum attempt count \<open>retries f \<ge> 1\<close>: when each of the attempts
  1 to \<open>retries f\<close> fails with a status outside 2xx, a timeout or a transport error,
  \<^verbatim>\<open>fetch_page\<close> raises \<^verbatim>\<open>FetchError\<close> after it has sent exactly the attempts
  1 to \<open>retries f\<close>, and the error carries the (non-empty) cause text of the last
  failure. When attempt \<open>j\<close> raises an exception that is no HTTP error, after earlier
  attempts that failed in the retried ways, \<^verbatim>\<open>fetch_page\<close> raises \<^verbatim>\<open>FetchError\<close>
  with that exception's text after it has sent the attempts 1 to \<open>j\<close> only.
\<close>

theorem fetch_retry_exhaustion:
  "(1 \<le> retries f \<and> (\<forall>k. 1 \<le> k \<and> k \<le> retries f \<longrightarrow> retried (client_get target k)) \<longrightarrow>
      fst (fetch_page f client_get draw target) =
        Inl (FetchError (failure_cause (client_get target (retries f)))) \<and>
      failure_cause (client_get target (retries f)) \<noteq> '''' \<and>
      gets (snd (fetch_page f client_get draw target)) = [1..retries f]) \<and>
   (1 \<le> j \<and> j \<le> retries f \<and> (\<forall>k. 1 \<le> k \<and> k < j \<longrightarrow> retried (client_get target k)) \<and>
    client_get target j = Inl (NonHTTPError e) \<longrightarrow>
      fst (fetch_page f client_get draw target) = Inl (FetchError (''Unexpected error: '' @ e)) \<and>
      gets (snd (fetch_page f client_get draw target)) = [1..j])"
proof (intro conjI impI)
  assume h: "1 \<le> retries f \<and> (\<forall>k. 1 \<le> k \<and> k \<le> retries f \<longrightarrow> retried (client_get target k))"
  then have run: "fetch_page f client_get draw target =
    (Inl (FetchError (failure_cause (client_get target (retries f)))),
     [] @ concat (map (\<lambda>k. [Sleep (rate_limit f - 1 + int (draw k mod 5)), Get k])
                   [1..retries f]))"
    unfolding fetch_page_def by (intro fetch_loop_exhausted) simp_all
  from run show "fst (fetch_page f client_get draw target) =
      Inl (FetchError (failure_cause (client_get target (retries f))))"
    by simp
  show "failure_cause (client_get target (retries f)) \<noteq> ''''"
    by (rule failure_cause_nonempty)
  from run show "gets (snd (fetch_page f client_get draw target)) = [1..retries f]"
    by (simp add: gets_attempts)
next
  assume h: "1 \<le> j \<and> j \<le> retries f \<and>
    (\<forall>k. 1 \<le> k \<and> k < j \<longrightarrow> retried (client_get target k)) \<and>
    client_get target j = Inl (NonHTTPError e)"
  then have run: "fetch_page f client_get draw target =
    (Inl (FetchError (''Unexpected error: '' @ e)),
     [] @ concat (map (\<lambda>k. [Sleep (rate_limit f - 1 + int (draw k mod 5)), Get k]) [1..j]))"
    unfolding fetch_page_def by (intro fetch_loop_unexpected) simp_all
  from run show "fst (fetch_page f client_get draw target) =
      Inl (FetchError (''Unexpected error: '' @ e))"
    by simp
  from run show "gets (snd (fetch_page f client_get draw target)) = [1..j]"
    by (simp add: gets_attempts)
qed

text \<open>
  The theorem at the fetcher of \<^verbatim>\<open>tests/test_fetcher.py\<close> (\<^verbatim>\<open>retries=1\<close>, every GET
  answers 404): one attempt, then \<^verbatim>\<open>FetchError\<close>. And at a fetcher with three
  attempts whose second GET raises an unexpected exception: two attempts only.
\<close>

theorem fetch_retry_exhaustion_witness:
  "1 \<le> retries \<lparr>timeout = 10, retries = 1, rate_limit = 0\<rparr> \<and>
   retried (always_404 ''https://example.com/notfound'' 1) \<and>
   fst (fetch_page \<lparr>timeout = 10, retries = 1, rate_limit = 0\<rparr> always_404 draw_zero
          ''https://example.com/notfound'') = Inl (FetchError ''HTTP error: 404'') \<and>
   gets (snd (fetch_page \<lparr>timeout = 10, retries = 1, rate_limit = 0\<rparr> always_404 draw_zero
          ''https://example.com/notfound'')) = [1] \<and>
   (2::int) \<le> retries \<lparr>timeout = 10, retries = 3, rate_limit = 0\<rparr> \<and>
   retried (second_unexpected ''https://example.com/x'' 1) \<and>
   second_unexpected ''https://example.com/x'' 2 = Inl (NonHTTPError ''boom'') \<and>
   fst (fetch_page \<lparr>timeout = 10, retries = 3, rate_limit = 0\<rparr> second_unexpected draw_zero
          ''https://example.com/x'') = Inl (FetchError ''Unexpected error: boom'') \<and>
   gets (snd (fetch_page \<lparr>timeout = 10, retries = 3, rate_limit = 0\<rparr> second_unexpected
          draw_zero ''https://example.com/x'')) = [1, 2]"
proof -
  let ?f1 = "\<lparr>timeout = 10, retries = 1, rate_limit = 0\<rparr>"
  let ?f3 = "\<lparr>timeout = 10, retries = 3, rate_limit = 0\<rparr>"
  have a1: "1 \<le> retries ?f1 \<and>
      (\<forall>k. 1 \<le> k \<and> k \<le> retries ?f1 \<longrightarrow> retried (always_404 ''https://example.com/notfound'' k))"
    by (simp add: always_404_def is_success_def)
  have cause: "failure_cause (always_404 ''https://example.com/notfound'' 1) = ''HTTP error: 404''"
    by (simp add: always_404_def str_nat.simps)
  have b1: "(1::int) \<le> 2 \<and> 2 \<le> retries ?f3 \<and>
      (\<forall>k. 1 \<le> k \<and> k < 2 \<longrightarrow> retried (second_unexpected ''https://example.com/x'' k)) \<and>
      second_unexpected ''https://example.com/x'' 2 = Inl (NonHTTPError ''boom'')"
    by (simp add: second_unexpected_def)
  have r12: "[1..2] = [1, 2::int]"
    by (simp add: upto_step)
  from fetch_retry_exhaustion [where f = ?f1 and client_get = always_404
      and target = "''https://example.com/notfound''" and draw = draw_zero] a1 cause
  have first: "fst (fetch_page ?f1 always_404 draw_zero ''https://example.com/notfound'') =
        Inl (FetchError ''HTTP error: 404'') \<and>
      gets (snd (fetch_page ?f1 always_404 draw_zero ''https://example.com/notfound'')) = [1]"
    by simp
  from fetch_retry_exhaustion [where f = ?f3 and client_get = second_unexpected
      and target = "''https://example.com/x''" and j = 2 and e = "''boom''" and draw = draw_zero]
    b1 r12
  have second: "fst (fetch_page ?f3 second_unexpected draw_zero ''https://example.com/x'') =
        Inl (FetchError ''Unexpected error: boom'') \<and>
      gets (snd (fetch_page ?f3 second_unexpected draw_zero ''https://example.com/x'')) = [1, 2]"
    by simp
  from a1 b1 first second show ?thesis by simp
qed

lemma sleeps_before_gets_snoc:
  "sleeps_before_gets lo hi (tr @ [Sleep d, Get k]) \<longleftrightarrow>
     sleeps_before_gets lo hi tr \<and> lo \<le> d \<and> d \<le> hi"
  by (induction lo hi tr rule: sleeps_before_gets.induct) auto

lemma fetch_loop_sleeps:
  assumes "sleeps_before_gets (rate_limit f - 1) (rate_limit f + 3) tr"
  shows "sleeps_before_gets (rate_limit f - 1) (rate_limit f + 3)
           (snd (fetch_loop f client_get draw target attempts response tr))"
  using assms
proof (induction attempts arbitrary: response tr)
  case Nil
  then show ?case by (simp split: option.splits)
next
  case (Cons attempt rest)
  let ?d = "rate_limit f - 1 + int (draw attempt mod 5)"
  have "sleeps_before_gets (rate_limit f - 1) (rate_limit f + 3) (tr @ [Sleep ?d, Get attempt])"
    using Cons.prems by (simp add: sleeps_before_gets_snoc)
  then have here: "sleeps_before_gets (rate_limit f - 1) (rate_limit f + 3)
      (tr @ [Sleep ?d, Get attempt])" .
  then have later: "\<And>r. sleeps_before_gets (rate_limit f - 1) (rate_limit f + 3)
      (snd (fetch_loop f client_get draw target rest r (tr @ [Sleep ?d, Get attempt])))"
    by (rule Cons.IH)
  show ?case
  proof (cases "client_get target attempt")
    case (Inr r)
    with here later show ?thesis by (auto simp: randint_window)
  next
    case (Inl err)
    with here later show ?thesis
      by (cases err) (auto simp: randint_window)
  qed
qed

text \<open>
  Claim C9, as the code has it. The trace of \<^verbatim>\<open>fetch_page\<close> is a sequence of pairs,
  a sleep and then a GET, so every attempt and also the first has its sleep before
  it; each delay is an integer of the window from \<open>rate_limit - 1\<close> to
  \<open>rate_limit + 3\<close>, the bounds of \<^verbatim>\<open>random.randint(self.rate_limit - 1, self.rate_limit + 3)\<close>.
\<close>

theorem fetch_page_sleeps:
  "sleeps_before_gets (rate_limit f - 1) (rate_limit f + 3)
     (snd (fetch_page f client_get draw target))"
  unfolding fetch_page_def by (rule fetch_loop_sleeps) simp

text \<open>
  The claim as it is written takes the configured delay for the lower bound. With the
  default \<^verbatim>\<open>rate_limit_delay\<close> of 3 and a draw of 0 the fetcher sleeps 2 before its
  first GET, which is below 3.
\<close>

theorem fetch_page_sleeps_counterexample:
  "snd (fetch_page \<lparr>timeout = 10, retries = 1, rate_limit = 3\<rparr> always_404 draw_zero
          ''https://example.com/notfound'') = [Sleep 2, Get 1] \<and>
   (2::int) < rate_limit \<lparr>timeout = 10, retries = 1, rate_limit = 3\<rparr>"
  by (simp add: fetch_page_def randint_def draw_zero_def always_404_def is_success_def)

section \<open>Upsert of page records\<close>

lemma url_set_image_fields [simp]: "url (set_image_fields iu ifn ist isz page) = url page"
  by (simp add: set_image_fields_def Let_def)

lemma find_update_first:
  assumes "find p xs = Some x" and "p (f x)"
  shows "find p (update_first p f xs) = Some (f x)"
  using assms by (induction xs) (auto split: if_splits)

lemma map_update_first:
  assumes "\<And>x. g (f x) = g x"
  shows "map g (update_first p f xs) = map g xs"
  using assms by (induction xs) auto

lemma length_update_first [simp]: "length (update_first p f xs) = length xs"
  by (induction xs) auto

lemma find_None_append:
  assumes "find p xs = None" and "p y"
  shows "find p (xs @ [y]) = Some y"
  using assms by (induction xs) (auto split: if_splits)

lemma find_None_notin:
  assumes "find (\<lambda>r. g r = u) xs = None"
  shows "u \<notin> set (map g xs)"
  using assms by (induction xs) (auto split: if_splits)

lemma distinct_count_one:
  assumes "distinct (map g xs)" and "u \<in> set (map g xs)"
  shows "length (filter (\<lambda>r. g r = u) xs) = 1"
  using assms
proof (induction xs)
  case Nil
  then show ?case by simp
next
  case (Cons x xs)
  show ?case
  proof (cases "g x = u")
    case True
    with Cons.prems have "u \<notin> g ` set xs" by auto
    then have "filter (\<lambda>r. g r = u) xs = []"
      by (auto simp: filter_empty_conv)
    with True show ?thesis by simp
  next
    case False
    with Cons show ?thesis by auto
  qed
qed

lemma add_crawled_page_urls:
  "map url (add_crawled_page db now u name html_filename hi iu ifn ist isz st hsz) =
     (if u \<in> set (map url db) then map url db else map url db @ [u])"
proof (cases "find (\<lambda>r. url r = u) db")
  case None
  then have "u \<notin> set (map url db)" by (rule find_None_notin)
  with None show ?thesis by (simp add: add_crawled_page_def)
next
  case (Some r)
  then have "u \<in> set (map url db)"
    by (auto simp: find_Some_iff)
  with Some show ?thesis
    by (simp add: add_crawled_page_def map_update_first)
qed

lemma add_crawled_page_distinct:
  assumes "distinct (map url db)"
  shows "distinct (map url (add_crawled_page db now u name html_filename hi iu ifn ist isz st hsz))"
  using assms by (simp add: add_crawled_page_urls)

lemma add_crawled_page_one_row:
  assumes "distinct (map url db)"
  shows "length (filter (\<lambda>r. url r = u)
           (add_crawled_page db now u name html_filename hi iu ifn ist isz st hsz)) = 1"
proof (rule distinct_count_one)
  show "distinct (map url (add_crawled_page db now u name html_filename hi iu ifn ist isz st hsz))"
    using assms by (rule add_crawled_page_distinct)
  show "u \<in> set (map url (add_crawled_page db now u name html_filename hi iu ifn ist isz st hsz))"
    by (simp add: add_crawled_page_urls)
qed

lemma add_crawled_page_update:
  assumes "get_crawled_page db u = Some old"
  shows "get_crawled_page (add_crawled_page db now u name html_filename hi iu ifn ist isz st hsz) u =
    Some ((set_image_fields iu ifn ist isz
            (old\<lparr>npc_name := name, content := html_filename, status := st,
                 html_file_size := hsz, has_image := hi\<rparr>))\<lparr>updated_at := fst now\<rparr>)"
proof -
  from assms have "url old = u"
    by (auto simp: get_crawled_page_def find_Some_iff)
  with assms show ?thesis
    by (simp add: get_crawled_page_def add_crawled_page_def find_update_first)
qed

lemma add_crawled_page_insert:
  assumes "get_crawled_page db u = None"
  shows "get_crawled_page (add_crawled_page db now u name html_filename hi iu ifn ist isz st hsz) u =
    Some (set_image_fields iu ifn ist isz
            \<lparr>row_id = next_row_id db, url = u, content = html_filename,
             npc_name = name, has_image = hi, image_url = None,
             image_filename = None, image_status = Some ''no_image'',
             image_size = Some 0, status = st, html_file_size = hsz,
             crawled_at = fst now, updated_at = snd now\<rparr>)"
  using assms
  by (simp add: get_crawled_page_def add_crawled_page_def find_None_append)

lemma set_image_fields_sel [simp]:
  "row_id (set_image_fields iu ifn ist isz page) = row_id page"
  "content (set_image_fields iu ifn ist isz page) = content page"
  "npc_name (set_image_fields iu ifn ist isz page) = npc_name page"
  "has_image (set_image_fields iu ifn ist isz page) = has_image page"
  "status (set_image_fields iu ifn ist isz page) = status page"
  "html_file_size (set_image_fields iu ifn ist isz page) = html_file_size page"
  "crawled_at (set_image_fields iu ifn ist isz page) = crawled_at page"
  "updated_at (set_image_fields iu ifn ist isz page) = updated_at page"
  "image_size (set_image_fields iu ifn ist isz page) = Some isz"
  "image_url (set_image_fields iu ifn ist isz page) = (if truthy iu then iu else image_url page)"
  "image_filename (set_image_fields iu ifn ist isz page) =
     (if truthy ifn then ifn else image_filename page)"
  "image_status (set_image_fields iu ifn ist isz page) =
     (if truthy ist then ist else image_status page)"
  by (simp_all add: set_image_fields_def Let_def)

lemma add_crawled_page_length:
  "length (add_crawled_page db now u name html_filename hi iu ifn ist isz st hsz) =
     (if get_crawled_page db u = None then length db + 1 else length db)"
  by (auto simp: add_crawled_page_def get_crawled_page_def split: option.splits)

lemma filter_update_first:
  assumes "\<And>x. p x \<Longrightarrow> p (f x)"
  shows "filter (\<lambda>x. \<not> p x) (update_first p f xs) = filter (\<lambda>x. \<not> p x) xs"
  using assms by (induction xs) auto

lemma add_crawled_page_frame:
  "filter (\<lambda>r. url r \<noteq> u) (add_crawled_page db now u name html_filename hi iu ifn ist isz st hsz) =
   filter (\<lambda>r. url r \<noteq> u) db"
  by (simp add: add_crawled_page_def filter_update_first split: option.splits)

text \<open>
  Claim C3, as the code has it, for sizes that fit an SQLite integer. In a table with
  one row per URL at most (the column is \<^verbatim>\<open>unique\<close>), after \<^verbatim>\<open>add_crawled_page\<close> for
  \<open>u\<close> there is exactly one row for \<open>u\<close>, and the rows of other URLs are as before.
  If a row \<open>old\<close> was there, no row is added and that row now has the new name,
  content, status and sizes and the new \<^verbatim>\<open>has_image\<close>; each of \<^verbatim>\<open>image_url\<close>,
  \<^verbatim>\<open>image_filename\<close>, \<^verbatim>\<open>image_status\<close> is the new value if that is a non-empty string
  and the old one otherwise (so a null or empty argument keeps the old value);
  \<^verbatim>\<open>updated_at\<close> is the clock's reading and \<^verbatim>\<open>crawled_at\<close> is the old one. If no row
  was there, one row is added with \<^verbatim>\<open>crawled_at\<close> and \<^verbatim>\<open>updated_at\<close> the two readings
  of the clock. After a second upsert of \<open>u\<close> (with any fields) there is still
  exactly one row for \<open>u\<close>, its \<^verbatim>\<open>crawled_at\<close> is that of the first upsert and its
  \<^verbatim>\<open>updated_at\<close> is the reading of the second upsert. The \<^verbatim>\<open>updated_at\<close> that the
  first upsert left is one of its own readings; so \<^verbatim>\<open>updated_at\<close> increases strictly
  exactly when the second upsert reads a later time than the first one stored, as it
  does when the clock does not run backwards during the first upsert and has advanced
  when the second one reads it. The code reads the wall clock and compares nothing.
\<close>

theorem upsert_page_record:
  assumes "distinct (map url db)"
    and "sqlite_integer isz \<and> sqlite_integer hsz \<and> sqlite_integer isz' \<and> sqlite_integer hsz'"
  shows
    "(let db1 = add_crawled_page db now u name html_filename hi iu ifn ist isz st hsz;
          db2 = add_crawled_page db1 now' u name' html_filename' hi' iu' ifn' ist' isz' st' hsz'
      in length (filter (\<lambda>r. url r = u) db1) = 1 \<and>
         filter (\<lambda>r. url r \<noteq> u) db1 = filter (\<lambda>r. url r \<noteq> u) db \<and>
         (\<forall>old. get_crawled_page db u = Some old \<longrightarrow>
            (\<exists>r. get_crawled_page db1 u = Some r \<and> length db1 = length db \<and>
               row_id r = row_id old \<and> url r = u \<and> npc_name r = name \<and>
               content r = html_filename \<and> status r = st \<and> html_file_size r = hsz \<and>
               has_image r = hi \<and> image_size r = Some isz \<and>
               image_url r = (if truthy iu then iu else image_url old) \<and>
               image_filename r = (if truthy ifn then ifn else image_filename old) \<and>
               image_status r = (if truthy ist then ist else image_status old) \<and>
               (iu = None \<longrightarrow> image_url r = image_url old) \<and>
               (ifn = None \<longrightarrow> image_filename r = image_filename old) \<and>
               (ist = None \<longrightarrow> image_status r = image_status old) \<and>
               crawled_at r = crawled_at old \<and> updated_at r = fst now)) \<and>
         (get_crawled_page db u = None \<longrightarrow>
            (\<exists>r. get_crawled_page db1 u = Some r \<and> length db1 = length db + 1 \<and>
               url r = u \<and> npc_name r = name \<and> content r = html_filename \<and>
               status r = st \<and> html_file_size r = hsz \<and> has_image r = hi \<and>
               image_size r = Some isz \<and>
               crawled_at r = fst now \<and> updated_at r = snd now)) \<and>
         (\<exists>r1 r2. get_crawled_page db1 u = Some r1 \<and> get_crawled_page db2 u = Some r2 \<and>
            length db2 = length db1 \<and> length (filter (\<lambda>r. url r = u) db2) = 1 \<and>
            filter (\<lambda>r. url r \<noteq> u) db2 = filter (\<lambda>r. url r \<noteq> u) db \<and>
            crawled_at r2 = crawled_at r1 \<and> updated_at r2 = fst now' \<and>
            (updated_at r1 = fst now \<or> updated_at r1 = snd now) \<and>
            (updated_at r1 < updated_at r2 \<longleftrightarrow> updated_at r1 < fst now') \<and>
            (fst now \<le> snd now \<and> snd now < fst now' \<longrightarrow> updated_at r1 < updated_at r2)))"
proof -
  define db1 where "db1 = add_crawled_page db now u name html_filename hi iu ifn ist isz st hsz"
  define db2 where
    "db2 = add_crawled_page db1 now' u name' html_filename' hi' iu' ifn' ist' isz' st' hsz'"
  have d1: "distinct (map url db1)"
    unfolding db1_def using assms(1) by (rule add_crawled_page_distinct)
  have one1: "length (filter (\<lambda>r. url r = u) db1) = 1"
    unfolding db1_def using assms(1) by (rule add_crawled_page_one_row)
  have one2: "length (filter (\<lambda>r. url r = u) db2) = 1"
    unfolding db2_def using d1 by (rule add_crawled_page_one_row)
  have frame1: "filter (\<lambda>r. url r \<noteq> u) db1 = filter (\<lambda>r. url r \<noteq> u) db"
    unfolding db1_def by (rule add_crawled_page_frame)
  have "filter (\<lambda>r. url r \<noteq> u) db2 = filter (\<lambda>r. url r \<noteq> u) db1"
    unfolding db2_def by (rule add_crawled_page_frame)
  with frame1 have frame2: "filter (\<lambda>r. url r \<noteq> u) db2 = filter (\<lambda>r. url r \<noteq> u) db"
    by simp
  have upd: "\<exists>r. get_crawled_page db1 u = Some r \<and> length db1 = length db \<and>
       row_id r = row_id old \<and> url r = u \<and> npc_name r = name \<and>
       content r = html_filename \<and> status r = st \<and> html_file_size r = hsz \<and>
       has_image r = hi \<and> image_size r = Some isz \<and>
       image_url r = (if truthy iu then iu else image_url old) \<and>
       image_filename r = (if truthy ifn then ifn else image_filename old) \<and>
       image_status r = (if truthy ist then ist else image_status old) \<and>
       (iu = None \<longrightarrow> image_url r = image_url old) \<and>
       (ifn = None \<longrightarrow> image_filename r = image_filename old) \<and>
       (ist = None \<longrightarrow> image_status r = image_status old) \<and>
       crawled_at r = crawled_at old \<and> updated_at r = fst now"
    if old: "get_crawled_page db u = Some old" for old
  proof -
    from old have "url old = u"
      by (auto simp: get_crawled_page_def find_Some_iff)
    with old show ?thesis
      unfolding db1_def
      by (simp add: add_crawled_page_update add_crawled_page_length truthy_def)
  qed
  have ins: "\<exists>r. get_crawled_page db1 u = Some r \<and> length db1 = length db + 1 \<and>
       url r = u \<and> npc_name r = name \<and> content r = html_filename \<and>
       status r = st \<and> html_file_size r = hsz \<and> has_image r = hi \<and>
       image_size r = Some isz \<and> crawled_at r = fst now \<and> updated_at r = snd now"
    if "get_crawled_page db u = None"
    using that unfolding db1_def
    by (simp add: add_crawled_page_insert add_crawled_page_length)
  obtain r1 where r1: "get_crawled_page db1 u = Some r1"
    and r1_time: "updated_at r1 = fst now \<or> updated_at r1 = snd now"
  proof (cases "get_crawled_page db u")
    case None
    from ins [OF None] that show ?thesis by blast
  next
    case (Some old)
    from upd [OF Some] that show ?thesis by blast
  qed
  have r2: "get_crawled_page db2 u =
      Some ((set_image_fields iu' ifn' ist' isz'
              (r1\<lparr>npc_name := name', content := html_filename', status := st',
                  html_file_size := hsz', has_image := hi'\<rparr>))\<lparr>updated_at := fst now'\<rparr>)"
    unfolding db2_def using r1 by (rule add_crawled_page_update)
  have len2: "length db2 = length db1"
    unfolding db2_def using r1 by (simp add: add_crawled_page_length)
  have twice: "\<exists>r1 r2. get_crawled_page db1 u = Some r1 \<and> get_crawled_page db2 u = Some r2 \<and>
      length db2 = length db1 \<and> length (filter (\<lambda>r. url r = u) db2) = 1 \<and>
      filter (\<lambda>r. url r \<noteq> u) db2 = filter (\<lambda>r. url r \<noteq> u) db \<and>
      crawled_at r2 = crawled_at r1 \<and> updated_at r2 = fst now' \<and>
      (updated_at r1 = fst now \<or> updated_at r1 = snd now) \<and>
      (updated_at r1 < updated_at r2 \<longleftrightarrow> updated_at r1 < fst now') \<and>
      (fst now \<le> snd now \<and> snd now < fst now' \<longrightarrow> updated_at r1 < updated_at r2)"
    using r1 r2 len2 one2 frame2 r1_time by auto
  from one1 frame1 upd ins twice show ?thesis
    unfolding Let_def db1_def [symmetric] db2_def [symmetric] by blast
qed

text \<open>
  The theorem at an empty table: a first upsert of a crawled page with its image at
  clock readings 100 and 101 inserts the row; a second upsert of the same URL at
  reading 200, with the fields of a failed fetch and no image information, updates it:
  one row, the image fields of the first upsert, \<^verbatim>\<open>crawled_at\<close> 100, \<^verbatim>\<open>updated_at\<close>
  from 101 to 200.
\<close>

theorem upsert_page_record_witness:
  "distinct (map url []) \<and>
   sqlite_integer 1234 \<and> sqlite_integer 5000 \<and> sqlite_integer 0 \<and>
   get_crawled_page [] ''https://oldschool.runescape.wiki/w/Man'' = None \<and>
   fst (100::nat, 101::nat) \<le> snd (100::nat, 101::nat) \<and>
   snd (100::nat, 101::nat) < fst (200::nat, 201::nat) \<and>
   get_crawled_page
     (add_crawled_page [] (100, 101) ''https://oldschool.runescape.wiki/w/Man'' ''Man''
        ''data/raw_html/Man.html'' True (Some ''https://oldschool.runescape.wiki/images/Man.png'')
        (Some ''Man.png'') (Some ''success'') 1234 ''success'' 5000)
     ''https://oldschool.runescape.wiki/w/Man'' =
     Some \<lparr>row_id = 1, url = ''https://oldschool.runescape.wiki/w/Man'',
           content = ''data/raw_html/Man.html'', npc_name = ''Man'', has_image = True,
           image_url = Some ''https://oldschool.runescape.wiki/images/Man.png'',
           image_filename = Some ''Man.png'', image_status = Some ''success'',
           image_size = Some 1234, status = ''success'', html_file_size = 5000,
           crawled_at = 100, updated_at = 101\<rparr> \<and>
   add_crawled_page
     (add_crawled_page [] (100, 101) ''https://oldschool.runescape.wiki/w/Man'' ''Man''
        ''data/raw_html/Man.html'' True (Some ''https://oldschool.runescape.wiki/images/Man.png'')
        (Some ''Man.png'') (Some ''success'') 1234 ''success'' 5000)
     (200, 201) ''https://oldschool.runescape.wiki/w/Man'' ''Man'' ''Man.html'' False
     None None None 0 ''failed'' 0 =
     [\<lparr>row_id = 1, url = ''https://oldschool.runescape.wiki/w/Man'',
       content = ''Man.html'', npc_name = ''Man'', has_image = False,
       image_url = Some ''https://oldschool.runescape.wiki/images/Man.png'',
       image_filename = Some ''Man.png'', image_status = Some ''success'',
       image_size = Some 0, status = ''failed'', html_file_size = 0,
       crawled_at = 100, updated_at = 200\<rparr>]"
proof -
  let ?u = "''https://oldschool.runescape.wiki/w/Man''"
  let ?iu = "Some ''https://oldschool.runescape.wiki/images/Man.png''"
  let ?db1 = "add_crawled_page [] (100, 101) ?u ''Man'' ''data/raw_html/Man.html'' True ?iu
      (Some ''Man.png'') (Some ''success'') 1234 ''success'' 5000"
  let ?db2 = "add_crawled_page ?db1 (200, 201) ?u ''Man'' ''Man.html'' False
      None None None 0 ''failed'' 0"
  let ?r1 = "\<lparr>row_id = 1, url = ?u, content = ''data/raw_html/Man.html'', npc_name = ''Man'',
      has_image = True, image_url = ?iu, image_filename = Some ''Man.png'',
      image_status = Some ''success'', image_size = Some 1234, status = ''success'',
      html_file_size = 5000, crawled_at = 100, updated_at = 101\<rparr>"
  have empty: "distinct (map url [])" by simp
  have sizes: "sqlite_integer 1234 \<and> sqlite_integer 5000 \<and> sqlite_integer 0"
    by (simp add: sqlite_integer_def)
  have sizes1: "sqlite_integer 1234 \<and> sqlite_integer 5000 \<and> sqlite_integer 0 \<and> sqlite_integer 0"
    by (simp add: sqlite_integer_def)
  have sizes2: "sqlite_integer 0 \<and> sqlite_integer 0 \<and> sqlite_integer 0 \<and> sqlite_integer 0"
    by (simp add: sqlite_integer_def)
  have none: "get_crawled_page [] ?u = None" by (simp add: get_crawled_page_def)
  have clock: "fst (100::nat, 101::nat) \<le> snd (100::nat, 101::nat) \<and>
      snd (100::nat, 101::nat) < fst (200::nat, 201::nat)" by simp
  have db1: "?db1 = [?r1]"
    by (simp add: add_crawled_page_def next_row_id_def set_image_fields_def truthy_def)
  have row1: "get_crawled_page ?db1 ?u = Some ?r1"
    unfolding db1 by (simp add: get_crawled_page_def)
  have one: "distinct (map url ?db1)" unfolding db1 by simp
  from upsert_page_record [OF empty sizes1, where now = "(100, 101)" and u = ?u
      and name = "''Man''"
      and html_filename = "''data/raw_html/Man.html''" and hi = True and iu = ?iu
      and ifn = "Some ''Man.png''" and ist = "Some ''success''"
      and st = "''success''" and now' = "(200, 201)" and name' = "''Man''"
      and html_filename' = "''Man.html''" and hi' = False and iu' = None and ifn' = None
      and ist' = None and st' = "''failed''"] none clock
  obtain r2 where r2: "get_crawled_page ?db2 ?u = Some r2" and "length ?db2 = length ?db1"
    and "crawled_at r2 = crawled_at ?r1" and "updated_at r2 = 200"
    and "updated_at ?r1 < updated_at r2"
    unfolding Let_def row1 by auto
  from upsert_page_record [OF one sizes2, where now = "(200, 201)" and u = ?u
      and name = "''Man''"
      and html_filename = "''Man.html''" and hi = False and iu = None and ifn = None
      and ist = None and st = "''failed''" and now' = "(300, 301)"
      and name' = "''Man''" and html_filename' = "''Man.html''" and hi' = False
      and iu' = None and ifn' = None and ist' = None and st' = "''failed''"] row1
  have kept: "\<exists>r. get_crawled_page ?db2 ?u = Some r \<and> image_url r = ?iu \<and>
      image_filename r = Some ''Man.png'' \<and> image_status r = Some ''success'' \<and>
      has_image r = False \<and> status r = ''failed''"
    unfolding Let_def by (auto simp: truthy_def)
  have db2: "?db2 = [?r1\<lparr>content := ''Man.html'', has_image := False, image_size := Some 0,
      status := ''failed'', html_file_size := 0, updated_at := 200\<rparr>]"
    unfolding db1
    by (simp add: add_crawled_page_def set_image_fields_def truthy_def)
  from empty sizes none clock row1 db2 kept r2 show ?thesis by simp
qed

text \<open>
  The claim as it is written promises a strictly later \<^verbatim>\<open>updated_at\<close> for any two
  upserts of a URL. \<^verbatim>\<open>updated_at\<close> is what \<^verbatim>\<open>datetime.now\<close> answers, and the code
  does not compare it with the stored value: two upserts of the same URL with the same
  fields, both at the reading 100, leave one row whose \<^verbatim>\<open>updated_at\<close> is 100 after the
  first and 100 after the second.
\<close>

theorem upsert_page_record_counterexample:
  "map updated_at
     (add_crawled_page [] (100, 100) ''https://oldschool.runescape.wiki/w/Man'' ''Man''
        ''Man.html'' False None None None 0 ''success'' 5000) = [100] \<and>
   map updated_at
     (add_crawled_page
        (add_crawled_page [] (100, 100) ''https://oldschool.runescape.wiki/w/Man'' ''Man''
           ''Man.html'' False None None None 0 ''success'' 5000)
        (100, 100) ''https://oldschool.runescape.wiki/w/Man'' ''Man''
        ''Man.html'' False None None None 0 ''success'' 5000) = [100] \<and>
   \<not> ((100::nat) < 100)"
  by (simp add: add_crawled_page_def next_row_id_def set_image_fields_def truthy_def)

section \<open>File names from URLs\<close>

lemma split_on_nonempty [simp]: "split_on c s \<noteq> []"
  by (induction s) auto

lemma tl_split_on_empty: "tl (split_on c s) = [] \<longleftrightarrow> c \<notin> set s"
  by (induction s) auto

lemma hd_split_on: "hd (split_on c s) = takeWhile (\<lambda>x. x \<noteq> c) s"
  by (induction s) auto

lemma split_on_single: "c \<notin> set s \<Longrightarrow> split_on c s = [s]"
  by (induction s) auto

lemma last_split_on: "last (split_on c s) = rev (takeWhile (\<lambda>x. x \<noteq> c) (rev s))"
proof (induction s)
  case Nil
  then show ?case by simp
next
  case (Cons x xs)
  show ?case
  proof (cases "x = c")
    case True
    with Cons show ?thesis by (simp add: takeWhile_append)
  next
    case False
    show ?thesis
    proof (cases "c \<in> set xs")
      case True
      then have "tl (split_on c xs) \<noteq> []" by (simp add: tl_split_on_empty)
      moreover have "last (split_on c xs) = last (tl (split_on c xs))"
        using calculation by (cases "split_on c xs") auto
      ultimately show ?thesis
        using False True Cons by (auto simp: takeWhile_append)
    next
      case nin: False
      then show ?thesis using False by (simp add: split_on_single takeWhile_append)
    qed
  qed
qed

lemma last_segment_no_slash: "CHR ''/'' \<notin> set (last_segment p)"
  unfolding last_segment_def
  by (metis (mono_tags, lifting) set_rev set_takeWhileD)

lemma last_segment_subset: "set (last_segment p) \<subseteq> set p"
  unfolding last_segment_def
  by (metis set_rev set_takeWhileD subsetI)

lemma last_segment_suffix: "suffix (last_segment p) p"
  unfolding last_segment_def
  by (metis rev_rev_ident suffix_to_prefix takeWhile_is_prefix)

lemma split_scheme_suffix:
  assumes "split_scheme s d = (sc, r)"
  shows "suffix r s"
  using assms by (auto simp: split_scheme_def Let_def suffix_drop split: if_splits)

lemma splitnetloc_suffix:
  assumes "splitnetloc s = (nl, r)"
  shows "suffix r s"
proof -
  from assms have "r = dropWhile (\<lambda>c. c \<notin> set ''/?#'') (drop 2 s)"
    by (simp add: splitnetloc_def Let_def)
  then have "suffix r (drop 2 s)" by (simp add: suffix_dropWhile)
  then show ?thesis
    using suffix_drop suffix_order.trans by blast
qed

lemma split_once_prefix:
  assumes "split_once c s = (a, b)"
  shows "prefix a s \<and> c \<notin> set a"
proof -
  from assms have a: "a = takeWhile (\<lambda>x. x \<noteq> c) s" by (simp add: split_once_def)
  show ?thesis unfolding a
    by (auto simp: takeWhile_is_prefix dest: set_takeWhileD)
qed

lemma urlsplit_path:
  assumes "urlsplit s d = Inr (sc, nl, p, q, f)"
  shows "CHR ''#'' \<notin> set p \<and> CHR ''?'' \<notin> set p \<and> sublist p (remove_unsafe_bytes s)"
proof -
  define s1 where "s1 = remove_unsafe_bytes (lstrip_c0_or_space s)"
  define d1 where "d1 = remove_unsafe_bytes (rev (lstrip_c0_or_space (rev (lstrip_c0_or_space d))))"
  obtain sc' s2 where sch: "split_scheme s1 d1 = (sc', s2)" by (cases "split_scheme s1 d1")
  obtain nl' s3 where net: "(if take 2 s2 = ''//'' then splitnetloc s2 else ('''', s2)) = (nl', s3)"
    by (cases "if take 2 s2 = ''//'' then splitnetloc s2 else ('''', s2)")
  obtain s4 f' where frag:
    "(if CHR ''#'' \<in> set s3 then split_once CHR ''#'' s3 else (s3, '''')) = (s4, f')"
    by (cases "if CHR ''#'' \<in> set s3 then split_once CHR ''#'' s3 else (s3, '''')")
  obtain s5 q' where qry:
    "(if CHR ''?'' \<in> set s4 then split_once CHR ''?'' s4 else (s4, '''')) = (s5, q')"
    by (cases "if CHR ''?'' \<in> set s4 then split_once CHR ''?'' s4 else (s4, '''')")
  from assms have p: "p = s5"
    unfolding urlsplit_def Let_def s1_def [symmetric] d1_def [symmetric]
    by (simp add: sch net frag qry split: if_splits)
  have 1: "suffix s1 (remove_unsafe_bytes s)"
    unfolding s1_def remove_unsafe_bytes_def lstrip_c0_or_space_def
    by (intro filter_mono_suffix suffix_dropWhile)
  have 2: "suffix s2 s1" using sch by (rule split_scheme_suffix)
  have 3: "suffix s3 s2"
    using net by (auto split: if_splits dest: splitnetloc_suffix)
  have 4: "prefix s4 s3 \<and> CHR ''#'' \<notin> set s4"
    using frag by (auto split: if_splits dest: split_once_prefix)
  have 5: "prefix s5 s4 \<and> CHR ''?'' \<notin> set s5"
    using qry by (auto split: if_splits dest: split_once_prefix)
  from 4 5 have "CHR ''#'' \<notin> set s5"
    by (meson set_mono_prefix subsetD)
  moreover have "sublist s3 (remove_unsafe_bytes s)"
    using 1 2 3 by (meson suffix_imp_sublist suffix_order.trans)
  then have "sublist s5 (remove_unsafe_bytes s)"
    using 4 5 by (meson prefix_imp_sublist prefix_order.trans sublist_order.order.trans)
  ultimately show ?thesis using 5 p by simp
qed

lemma splitparams_prefix:
  assumes "splitparams p = (a, b)"
  shows "prefix a p"
proof -
  define seg where "seg = last_segment p"
  have "suffix seg p" unfolding seg_def by (rule last_segment_suffix)
  then have whole: "take (length p - length seg) p @ seg = p"
    by (auto simp: suffix_def)
  show ?thesis
  proof (cases "CHR '';'' \<in> set seg")
    case True
    with assms have "a = take (length p - length seg) p @ takeWhile (\<lambda>c. c \<noteq> CHR '';'') seg"
      by (simp add: splitparams_def Let_def seg_def)
    moreover have "prefix (take (length p - length seg) p @ takeWhile (\<lambda>c. c \<noteq> CHR '';'') seg)
        (take (length p - length seg) p @ seg)"
      by (simp add: takeWhile_is_prefix)
    ultimately show ?thesis using whole by simp
  next
    case False
    with assms show ?thesis by (simp add: splitparams_def Let_def seg_def)
  qed
qed

lemma urlparse_path:
  assumes "urlparse s d = Inr (sc, nl, p, pa, q, f)"
  shows "CHR ''#'' \<notin> set p \<and> CHR ''?'' \<notin> set p \<and> sublist p (remove_unsafe_bytes s)"
proof -
  from assms obtain p0 where split: "urlsplit s d = Inr (sc, nl, p0, q, f)"
    and p: "p = p0 \<or> p = fst (splitparams p0)"
    by (auto simp: urlparse_def Let_def split: sum.splits if_splits prod.splits)
  from split have p0: "CHR ''#'' \<notin> set p0 \<and> CHR ''?'' \<notin> set p0 \<and>
      sublist p0 (remove_unsafe_bytes s)"
    by (rule urlsplit_path)
  have "prefix (fst (splitparams p0)) p0"
    by (rule splitparams_prefix [of p0 _ "snd (splitparams p0)"]) simp
  with p have pre: "prefix p p0" by auto
  then have "set p \<subseteq> set p0" by (rule set_mono_prefix)
  moreover from pre p0 have "sublist p (remove_unsafe_bytes s)"
    by (meson prefix_imp_sublist sublist_order.order.trans)
  ultimately show ?thesis using p0 by auto
qed

lemma url_to_filename_parsed:
  assumes "urlparse s '''' = Inr (sc, nl, p, pa, q, f)"
  shows "url_to_filename s extension =
    Inr ((if last_segment p = [] then ''unnamed'' else last_segment p) @
         (case extension of None \<Rightarrow> [] | Some ext \<Rightarrow> ''.'' @ ext))"
proof -
  from assms have "CHR ''#'' \<notin> set p" by (simp add: urlparse_path)
  then have "CHR ''#'' \<notin> set (last_segment p)"
    using last_segment_subset by blast
  then have tw: "takeWhile (\<lambda>x. x \<noteq> CHR ''#'') (last_segment p) = last_segment p"
    by (auto simp: takeWhile_eq_all_conv)
  from assms show ?thesis
    by (simp add: url_to_filename_def Let_def hd_split_on last_split_on
        last_segment_def [symmetric] tw split: option.splits)
qed

text \<open>
  Claim C7, as the code has it. On a URL that \<^verbatim>\<open>urlparse\<close> accepts, with parsed path
  \<open>p\<close>, \<^verbatim>\<open>url_to_filename\<close> answers the last component of \<open>p\<close>, or \<^verbatim>\<open>unnamed\<close> when
  that component is empty, followed by a dot and the extension unless the extension
  is \<^verbatim>\<open>None\<close>. The component is the text behind the last \<^verbatim>\<open>/\<close> of the path; it is a
  piece of the URL as written (nothing is decoded, so percent-escapes stay) and holds
  no \<^verbatim>\<open>/\<close>, \<^verbatim>\<open>?\<close> or \<^verbatim>\<open>#\<close> (query and fragment are gone). On a URL that
  \<^verbatim>\<open>urlparse\<close> rejects, the \<^verbatim>\<open>ValueError\<close> is raised. Being a function of the URL and
  the extension, the answer is determined by them.
\<close>

theorem url_to_filename_last_component:
  "(urlparse s '''' = Inr (sc, nl, p, pa, q, f) \<longrightarrow>
      url_to_filename s extension =
        Inr ((if last_segment p = [] then ''unnamed'' else last_segment p) @
             (case extension of None \<Rightarrow> [] | Some ext \<Rightarrow> ''.'' @ ext)) \<and>
      last_segment p = last (split_on CHR ''/'' p) \<and>
      sublist (last_segment p) (remove_unsafe_bytes s) \<and>
      CHR ''/'' \<notin> set (last_segment p) \<and> CHR ''?'' \<notin> set (last_segment p) \<and>
      CHR ''#'' \<notin> set (last_segment p)) \<and>
   (urlparse s '''' = Inl e \<longrightarrow> url_to_filename s extension = Inl e)"
proof (intro conjI impI)
  assume parsed: "urlparse s '''' = Inr (sc, nl, p, pa, q, f)"
  then show "url_to_filename s extension =
      Inr ((if last_segment p = [] then ''unnamed'' else last_segment p) @
           (case extension of None \<Rightarrow> [] | Some ext \<Rightarrow> ''.'' @ ext))"
    by (rule url_to_filename_parsed)
  show "last_segment p = last (split_on CHR ''/'' p)"
    by (simp add: last_split_on last_segment_def)
  from parsed have path: "CHR ''#'' \<notin> set p \<and> CHR ''?'' \<notin> set p \<and>
      sublist p (remove_unsafe_bytes s)"
    by (rule urlparse_path)
  have "sublist (last_segment p) p"
    using last_segment_suffix by (rule suffix_imp_sublist)
  with path show "sublist (last_segment p) (remove_unsafe_bytes s)"
    by (meson sublist_order.order.trans)
  show "CHR ''/'' \<notin> set (last_segment p)" by (rule last_segment_no_slash)
  from path show "CHR ''?'' \<notin> set (last_segment p)"
    using last_segment_subset by blast
  from path show "CHR ''#'' \<notin> set (last_segment p)"
    using last_segment_subset by blast
next
  assume "urlparse s '''' = Inl e"
  then show "url_to_filename s extension = Inl e"
    by (simp add: url_to_filename_def)
qed

text \<open>
  The theorem at the URLs of \<^verbatim>\<open>tests/test_helpers.py\<close>: a page URL with the default
  extension, an image URL with no extension; and at a URL that \<^verbatim>\<open>urlparse\<close> rejects.
\<close>

theorem url_to_filename_last_component_witness:
  "urlparse ''https://oldschool.runescape.wiki/w/50%25_Luke'' '''' =
     Inr (''https'', ''oldschool.runescape.wiki'', ''/w/50%25_Luke'', '''', '''', '''') \<and>
   url_to_filename ''https://oldschool.runescape.wiki/w/50%25_Luke'' (Some ''html'') =
     Inr ''50%25_Luke.html'' \<and>
   urlparse ''https://oldschool.runescape.wiki/images/50%25_Luke.png'' '''' =
     Inr (''https'', ''oldschool.runescape.wiki'', ''/images/50%25_Luke.png'', '''', '''', '''') \<and>
   url_to_filename ''https://oldschool.runescape.wiki/images/50%25_Luke.png'' None =
     Inr ''50%25_Luke.png'' \<and>
   urlparse ''https://[oldschool/w/Man'' '''' = Inl (ValueError ''Invalid IPv6 URL'') \<and>
   url_to_filename ''https://[oldschool/w/Man'' (Some ''html'') =
     Inl (ValueError ''Invalid IPv6 URL'')"
proof -
  have p1: "urlparse ''https://oldschool.runescape.wiki/w/50%25_Luke'' '''' =
      Inr (''https'', ''oldschool.runescape.wiki'', ''/w/50%25_Luke'', '''', '''', '''')"
    by code_simp
  have p2: "urlparse ''https://oldschool.runescape.wiki/images/50%25_Luke.png'' '''' =
      Inr (''https'', ''oldschool.runescape.wiki'', ''/images/50%25_Luke.png'', '''', '''', '''')"
    by code_simp
  have p3: "urlparse ''https://[oldschool/w/Man'' '''' = Inl (ValueError ''Invalid IPv6 URL'')"
    by code_simp
  from url_to_filename_last_component [where s = "''https://oldschool.runescape.wiki/w/50%25_Luke''"
      and extension = "Some ''html''"] p1
  have f1: "url_to_filename ''https://oldschool.runescape.wiki/w/50%25_Luke'' (Some ''html'') =
      Inr ''50%25_Luke.html''"
    by (simp add: last_segment_def)
  from url_to_filename_last_component
      [where s = "''https://oldschool.runescape.wiki/images/50%25_Luke.png''"
      and extension = None] p2
  have f2: "url_to_filename ''https://oldschool.runescape.wiki/images/50%25_Luke.png'' None =
      Inr ''50%25_Luke.png''"
    by (simp add: last_segment_def)
  from url_to_filename_last_component [where s = "''https://[oldschool/w/Man''"
      and extension = "Some ''html''"] p3
  have f3: "url_to_filename ''https://[oldschool/w/Man'' (Some ''html'') =
      Inl (ValueError ''Invalid IPv6 URL'')"
    by simp
  from p1 p2 p3 f1 f2 f3 show ?thesis by simp
qed

text \<open>
  The claim as it is written gives the last path component for every URL. A URL whose
  path ends in \<^verbatim>\<open>/\<close> has an empty last component, and the code answers
  \<^verbatim>\<open>unnamed.html\<close> for it, not \<^verbatim>\<open>.html\<close>.
\<close>

theorem url_to_filename_counterexample:
  "urlparse ''https://oldschool.runescape.wiki/w/'' '''' =
     Inr (''https'', ''oldschool.runescape.wiki'', ''/w/'', '''', '''', '''') \<and>
   last (split_on CHR ''/'' ''/w/'') = '''' \<and>
   url_to_filename ''https://oldschool.runescape.wiki/w/'' (Some ''html'') = Inr ''unnamed.html''"
  by code_simp

section \<open>Parsing a list page\<close>

lemma descendants_trans:
  assumes "n \<in> set (descendants m)" and "m \<in> set (descendants r)"
  shows "n \<in> set (descendants r)"
  using assms(2)
proof (induction r rule: descendants.induct)
  case (1 name attrs contents)
  then obtain c where c: "c \<in> set contents" and m: "m = c \<or> m \<in> set (descendants c)"
    by auto
  from m have "n \<in> set (descendants c)"
  proof
    assume "m = c"
    with assms(1) show ?thesis by simp
  next
    assume "m \<in> set (descendants c)"
    with c show ?thesis by (rule "1.IH")
  qed
  with c show ?case by auto
next
  case (2 s)
  then show ?case by simp
qed

lemma find_first_Some:
  assumes "find_first matches r = Some n"
  shows "n \<in> set (descendants r) \<and> matches n"
  using assms by (auto simp: find_first_def find_Some_iff)

lemma find_all_member:
  "n \<in> set (find_all matches r) \<longleftrightarrow> n \<in> set (descendants r) \<and> matches n"
  by (simp add: find_all_def)

lemma item_href_Some:
  assumes "item_href li = Some h"
  shows "\<exists>a \<in> set (descendants li). tag_named ''a'' a \<and> get_attr a ''href'' = Some h \<and> h \<noteq> []"
  using assms
  by (auto simp: item_href_def truthy_def split: option.splits if_splits dest: find_first_Some)

lemma npc_links_loop_step:
  "npc_links_loop base (li # lis) acc =
     (case item_href li of
        None \<Rightarrow> npc_links_loop base lis acc
      | Some h \<Rightarrow> (case urljoin base h of
                    Inl e \<Rightarrow> Inl e
                  | Inr full_url \<Rightarrow> npc_links_loop base lis (acc @ [full_url])))"
  by (auto simp: item_href_def truthy_def split: option.splits sum.splits)

lemma npc_links_loop_Inr:
  assumes "npc_links_loop base lis acc = Inr urls"
  shows "\<exists>new. urls = acc @ new \<and> map Inr new = map (urljoin base) (List.map_filter item_href lis)"
  using assms
proof (induction lis arbitrary: acc)
  case Nil
  then show ?case by (simp add: map_filter_simps)
next
  case (Cons li lis)
  show ?case
  proof (cases "item_href li")
    case None
    with Cons show ?thesis
      by (simp add: npc_links_loop_step map_filter_simps del: npc_links_loop.simps)
  next
    case (Some h)
    with Cons.prems obtain full_url where j: "urljoin base h = Inr full_url"
      and rest: "npc_links_loop base lis (acc @ [full_url]) = Inr urls"
      by (auto simp: npc_links_loop_step simp del: npc_links_loop.simps split: sum.splits)
    from Cons.IH [OF rest] obtain new where "urls = (acc @ [full_url]) @ new"
      and "map Inr new = map (urljoin base) (List.map_filter item_href lis)" by blast
    with Some j show ?thesis
      by (intro exI [of _ "full_url # new"]) (simp add: map_filter_simps)
  qed
qed

lemma npc_links_loop_Inl:
  assumes "npc_links_loop base lis acc = Inl e"
  shows "\<exists>h \<in> set (List.map_filter item_href lis). urljoin base h = Inl e"
  using assms
proof (induction lis arbitrary: acc)
  case Nil
  then show ?case by simp
next
  case (Cons li lis)
  show ?case
  proof (cases "item_href li")
    case None
    with Cons show ?thesis
      by (simp add: npc_links_loop_step map_filter_simps del: npc_links_loop.simps)
  next
    case (Some h)
    show ?thesis
    proof (cases "urljoin base h")
      case (Inl e')
      with Some Cons.prems show ?thesis
        by (simp add: npc_links_loop_step map_filter_simps del: npc_links_loop.simps)
    next
      case (Inr full_url)
      with Some Cons.prems have "npc_links_loop base lis (acc @ [full_url]) = Inl e"
        by (simp add: npc_links_loop_step del: npc_links_loop.simps)
      from Cons.IH [OF this] Some show ?thesis
        by (auto simp: map_filter_simps)
    qed
  qed
qed

lemma in_set_map_filter:
  "y \<in> set (List.map_filter g xs) \<longleftrightarrow> (\<exists>x \<in> set xs. g x = Some y)"
  by (induction xs) (auto simp: map_filter_simps split: option.splits)

lemma item_hrefs_anchor:
  assumes "h \<in> set (item_hrefs d)"
  shows "\<exists>a \<in> set (descendants d). tag_named ''a'' a \<and> get_attr a ''href'' = Some h \<and> h \<noteq> []"
proof -
  from assms obtain li where li: "li \<in> set (descendants d)" and h: "item_href li = Some h"
    by (auto simp: item_hrefs_def in_set_map_filter find_all_member)
  from item_href_Some [OF h] obtain a where "a \<in> set (descendants li)"
    and a: "tag_named ''a'' a \<and> get_attr a ''href'' = Some h \<and> h \<noteq> []" by blast
  with li have "a \<in> set (descendants d)" by (blast intro: descendants_trans)
  with a show ?thesis by blast
qed

lemma parse_npc_list_page_unfold:
  assumes "find_all (\<lambda>n. tag_named ''div'' n \<and> has_class ''mw-category'' n) soup = divs"
    and "divs \<noteq> []"
    and "cd = (if length divs > 1 then divs ! 1 else divs ! 0)"
  shows "parse_npc_list_page base soup =
    (case npc_links_loop base (find_all (tag_named ''li'') cd) [] of
       Inl e \<Rightarrow> Inl e
     | Inr npc_links \<Rightarrow>
        (case find_first (\<lambda>n. tag_named ''a'' n \<and> node_string n = Some ''next page'') soup of
           None \<Rightarrow> Inr (npc_links, None)
         | Some next_page_link \<Rightarrow>
             if truthy (get_attr next_page_link ''href'')
             then (case urljoin base (the (get_attr next_page_link ''href'')) of
                     Inl e \<Rightarrow> Inl e
                   | Inr next_page_url \<Rightarrow> Inr (npc_links, Some next_page_url))
             else Inr (npc_links, None)))"
  using assms by (simp add: parse_npc_list_page_def Let_def)

text \<open>
  Claim C8, as the code has it, for the tree that BeautifulSoup made of the page.
  With no \<^verbatim>\<open>div\<close> of class \<^verbatim>\<open>mw-category\<close> the parser answers no links and no next
  page. With two or more, the links it answers are \<^verbatim>\<open>urljoin(base_url, href)\<close> for the
  \<^verbatim>\<open>href\<close>s read below the second container, in order, and each comes from an \<^verbatim>\<open>a\<close>
  below that container. When the first \<^verbatim>\<open>a\<close> whose string is \<^verbatim>\<open>next page\<close> has a
  non-empty \<^verbatim>\<open>href\<close> (and there is a container), the next-page URL is
  \<^verbatim>\<open>urljoin(base_url, href)\<close>; when there is
  no such anchor or its \<^verbatim>\<open>href\<close> is missing or empty, it is \<^verbatim>\<open>None\<close>. The parser raises
  only what \<^verbatim>\<open>urljoin\<close> raises on a non-empty \<^verbatim>\<open>href\<close> of an \<^verbatim>\<open>a\<close> of the page.
\<close>

theorem parse_npc_list_page_result:
  "(find_all (\<lambda>n. tag_named ''div'' n \<and> has_class ''mw-category'' n) soup = [] \<longrightarrow>
      parse_npc_list_page base soup = Inr ([], None)) \<and>
   (1 < length (find_all (\<lambda>n. tag_named ''div'' n \<and> has_class ''mw-category'' n) soup) \<and>
    parse_npc_list_page base soup = Inr (npc_urls, next_page_url) \<longrightarrow>
      map Inr npc_urls = map (urljoin base)
        (item_hrefs (find_all (\<lambda>n. tag_named ''div'' n \<and> has_class ''mw-category'' n) soup ! 1)) \<and>
      (\<forall>u \<in> set npc_urls.
         \<exists>a \<in> set (descendants
                   (find_all (\<lambda>n. tag_named ''div'' n \<and> has_class ''mw-category'' n) soup ! 1)).
           \<exists>h. tag_named ''a'' a \<and> get_attr a ''href'' = Some h \<and> urljoin base h = Inr u)) \<and>
   (find_all (\<lambda>n. tag_named ''div'' n \<and> has_class ''mw-category'' n) soup \<noteq> [] \<and>
    parse_npc_list_page base soup = Inr (npc_urls, next_page_url) \<and>
    find_first (\<lambda>n. tag_named ''a'' n \<and> node_string n = Some ''next page'') soup = Some link \<and>
    get_attr link ''href'' = Some h \<and> h \<noteq> [] \<longrightarrow>
      (\<exists>n. next_page_url = Some n \<and> urljoin base h = Inr n)) \<and>
   (parse_npc_list_page base soup = Inr (npc_urls, next_page_url) \<and>
    (case find_first (\<lambda>n. tag_named ''a'' n \<and> node_string n = Some ''next page'') soup of
       None \<Rightarrow> True | Some link \<Rightarrow> \<not> truthy (get_attr link ''href'')) \<longrightarrow>
      next_page_url = None) \<and>
   (parse_npc_list_page base soup = Inl e \<longrightarrow>
      (\<exists>a \<in> set (descendants soup).
         \<exists>h. tag_named ''a'' a \<and> get_attr a ''href'' = Some h \<and> h \<noteq> [] \<and>
             urljoin base h = Inl e))"
proof -
  define divs where
    "divs = find_all (\<lambda>n. tag_named ''div'' n \<and> has_class ''mw-category'' n) soup"
  define cd where "cd = (if length divs > 1 then divs ! 1 else divs ! 0)"
  note unfold = parse_npc_list_page_unfold [OF divs_def [symmetric] _ cd_def, of base]
  have cd_in: "cd \<in> set (descendants soup)" if "divs \<noteq> []"
  proof -
    from that have "cd \<in> set divs" by (auto simp: cd_def)
    then show ?thesis by (simp add: divs_def find_all_member)
  qed
  have none: "parse_npc_list_page base soup = Inr ([], None)" if "divs = []"
    using that by (simp add: parse_npc_list_page_def Let_def divs_def)
  have second: "map Inr npc_urls = map (urljoin base) (item_hrefs (divs ! 1)) \<and>
      (\<forall>u \<in> set npc_urls. \<exists>a \<in> set (descendants (divs ! 1)).
         \<exists>h. tag_named ''a'' a \<and> get_attr a ''href'' = Some h \<and> urljoin base h = Inr u)"
    if two: "1 < length divs" and ok: "parse_npc_list_page base soup = Inr (npc_urls, next_page_url)"
  proof -
    from two have ne: "divs \<noteq> []" and cd: "cd = divs ! 1" by (auto simp: cd_def)
    from ok have "npc_links_loop base (find_all (tag_named ''li'') cd) [] = Inr npc_urls"
      unfolding unfold [OF ne] by (auto split: sum.splits option.splits if_splits)
    from npc_links_loop_Inr [OF this]
    have eq: "map Inr npc_urls = map (urljoin base) (item_hrefs cd)"
      by (simp add: item_hrefs_def)
    have "\<exists>a \<in> set (descendants cd).
        \<exists>h. tag_named ''a'' a \<and> get_attr a ''href'' = Some h \<and> urljoin base h = Inr u"
      if "u \<in> set npc_urls" for u
    proof -
      from that have "Inr u \<in> set (map (urljoin base) (item_hrefs cd))"
        unfolding eq [symmetric] by simp
      then obtain h where "h \<in> set (item_hrefs cd)" and "urljoin base h = Inr u" by auto
      with item_hrefs_anchor [of h cd] show ?thesis by blast
    qed
    with eq cd show ?thesis by simp
  qed
  have "next": "\<exists>n. next_page_url = Some n \<and> urljoin base h = Inr n"
    if "divs \<noteq> []" and "parse_npc_list_page base soup = Inr (npc_urls, next_page_url)"
      and "find_first (\<lambda>n. tag_named ''a'' n \<and> node_string n = Some ''next page'') soup = Some link"
      and "get_attr link ''href'' = Some h" and "h \<noteq> []"
    using that(2-) unfolding unfold [OF that(1)]
    by (auto simp: truthy_def split: sum.splits)
  have nonext: "next_page_url = None"
    if "parse_npc_list_page base soup = Inr (npc_urls, next_page_url)"
      and "case find_first (\<lambda>n. tag_named ''a'' n \<and> node_string n = Some ''next page'') soup of
         None \<Rightarrow> True | Some link \<Rightarrow> \<not> truthy (get_attr link ''href'')"
  proof (cases "divs = []")
    case True
    with that none show ?thesis by simp
  next
    case False
    from that show ?thesis
      unfolding unfold [OF False]
      by (auto split: sum.splits option.splits)
  qed
  have raises: "\<exists>a \<in> set (descendants soup).
      \<exists>h. tag_named ''a'' a \<and> get_attr a ''href'' = Some h \<and> h \<noteq> [] \<and> urljoin base h = Inl e"
    if bad: "parse_npc_list_page base soup = Inl e"
  proof -
    from bad none have ne: "divs \<noteq> []" by auto
    show ?thesis
    proof (cases "npc_links_loop base (find_all (tag_named ''li'') cd) []")
      case (Inl e')
      with bad have "e' = e" unfolding unfold [OF ne] by simp
      with Inl npc_links_loop_Inl obtain h where "h \<in> set (item_hrefs cd)"
        and h: "urljoin base h = Inl e"
        unfolding item_hrefs_def by blast
      with item_hrefs_anchor [of h cd] obtain a where "a \<in> set (descendants cd)"
        and a: "tag_named ''a'' a \<and> get_attr a ''href'' = Some h \<and> h \<noteq> []" by blast
      with cd_in [OF ne] have "a \<in> set (descendants soup)"
        by (blast intro: descendants_trans)
      with a h show ?thesis by blast
    next
      case (Inr links)
      with bad obtain link where
        found: "find_first (\<lambda>n. tag_named ''a'' n \<and> node_string n = Some ''next page'') soup
          = Some link"
        and href: "truthy (get_attr link ''href'')"
        and join: "urljoin base (the (get_attr link ''href'')) = Inl e"
        unfolding unfold [OF ne]
        by (auto split: option.splits if_splits sum.splits)
      from found have "link \<in> set (descendants soup) \<and> tag_named ''a'' link"
        by (auto dest: find_first_Some)
      moreover from href obtain h where "get_attr link ''href'' = Some h" and "h \<noteq> []"
        by (auto simp: truthy_def split: option.splits)
      ultimately show ?thesis using join by auto
    qed
  qed
  from none second "next" nonext raises show ?thesis
    unfolding divs_def [symmetric] by blast
qed

end
